theory Spec2Isabelle
  imports Complex_Main
begin

section \<open>The protocol client of tiny-browser (\<open>createClient\<close> in client.ts)\<close>

subsection \<open>JavaScript values read from and written to the wire\<close>

text \<open>
  \<open>ws.onmessage\<close> works on \<open>JSON.parse(event.data)\<close>, any JSON value. Numbers are
  modelled as rationals, an object as the association list of its own properties
  (keys distinct, as \<open>JSON.parse\<close> builds them). A JavaScript value that may be
  \<open>undefined\<close> (a missing property, an omitted argument) is a \<open>json option\<close>,
  \<open>None\<close> standing for \<open>undefined\<close>.
\<close>

datatype json =
    JNull
  | JBool bool
  | JNum rat
  | JStr string
  | JArr "json list"
  | JObj "(string \<times> json) list"

datatype error =
    Error string    \<comment> \<open>\<open>new Error(message)\<close>\<close>
  | TypeError       \<comment> \<open>property read on \<open>null\<close>\<close>

text \<open>The condition of \<open>if (v)\<close> and \<open>v ? a : b\<close>: JavaScript's ToBoolean.\<close>

fun truthy :: "json option \<Rightarrow> bool" where
  "truthy None = False"
| "truthy (Some JNull) = False"
| "truthy (Some (JBool b)) = b"
| "truthy (Some (JNum q)) = (q \<noteq> 0)"
| "truthy (Some (JStr s)) = (s \<noteq> [])"
| "truthy (Some (JArr xs)) = True"
| "truthy (Some (JObj kvs)) = True"

text \<open>
  The property read \<open>data.k\<close> on a value other than \<open>null\<close>, for the names the
  handler reads (\<open>id\<close>, \<open>error\<close>, \<open>result\<close>, \<open>method\<close>, \<open>params\<close>): on an object it is
  the own property or \<open>undefined\<close>; booleans, numbers, strings and arrays have no
  property of these names. On \<open>null\<close> the read throws a TypeError, which is a
  branch of \<open>onmessage\<close> below.
\<close>

fun property :: "json \<Rightarrow> string \<Rightarrow> json option" where
  "property (JObj kvs) k = map_of kvs k"
| "property v k = None"

subsection \<open>Promises, the socket and the state of one client\<close>

datatype ('v, 'e) promise = Pending | Fulfilled 'v | Rejected 'e

text \<open>The two functions of \<open>Promise.withResolvers\<close> and of the executor of
  \<open>new Promise\<close>: a settled promise ignores every later call.\<close>

fun resolve :: "'v \<Rightarrow> ('v, 'e) promise \<Rightarrow> ('v, 'e) promise" where
  "resolve v Pending = Fulfilled v"
| "resolve v p = p"

fun reject :: "'e \<Rightarrow> ('v, 'e) promise \<Rightarrow> ('v, 'e) promise" where
  "reject e Pending = Rejected e"
| "reject e p = p"

datatype ready_state = CONNECTING | OPEN | CLOSING | CLOSED

datatype close_event = CloseEvent (code: nat) (reason: string)

text \<open>A listener is a function reference; the model names each by a number, and
  calling it is recorded in \<open>calls\<close> with the argument it received.\<close>

type_synonym callback = nat

text \<open>
  The closure of \<open>createClient\<close>: the socket \<open>ws\<close> (its \<open>readyState\<close> and the frames
  handed to \<open>ws.send\<close>), \<open>connectionPromise\<close>, \<open>messageId\<close>, \<open>eventListeners\<close> (a Set is
  the list of its elements in insertion order) and \<open>pendingCommands\<close>. The promises
  that \<open>sendCommand\<close> returned are kept in \<open>promises\<close>; the handle of a command is the
  index of its promise there, and a \<open>{resolve, reject}\<close> pair stored in
  \<open>pendingCommands\<close> is the handle of the promise it settles.
\<close>

record client =
  readyState :: ready_state
  sent :: "json list"
  connectionPromise :: "(unit, close_event) promise"
  messageId :: nat
  eventListeners :: "string \<rightharpoonup> callback list"
  pendingCommands :: "nat \<rightharpoonup> nat"
  promises :: "(json option, json option) promise list"
  calls :: "(callback \<times> json option) list"

text \<open>The state when \<open>createClient\<close> reaches \<open>await connectionPromise\<close>.\<close>

definition createClient :: client where
  "createClient =
     \<lparr> readyState = CONNECTING, sent = [], connectionPromise = Pending, messageId = 0,
       eventListeners = Map.empty, pendingCommands = Map.empty, promises = [], calls = [] \<rparr>"

subsection \<open>\<open>sendCommand\<close>, \<open>on\<close>, \<open>close\<close>\<close>

text \<open>
  \<open>++messageId\<close> on a JavaScript number, an IEEE 754 double: exact below \<open>2^53\<close>;
  \<open>2^53 + 1\<close> is not a double and rounds (to even) back to \<open>2^53\<close>. The counter starts
  at 0 and only moves by this step, so it never exceeds \<open>2^53\<close>.
\<close>

definition incr :: "nat \<Rightarrow> nat" where
  "incr n = (if n < 2 ^ 53 then n + 1 else n)"

text \<open>
  The object given to \<open>JSON.stringify\<close>; the text on the wire has exactly its
  properties, in this order (\<open>params\<close> is taken to hold JSON values only).
  \<open>sessionId ? {id, method, params, sessionId} : {id, method, params}\<close> tests the
  truth value of a \<open>string | undefined\<close>: \<open>undefined\<close> and the empty string
  take the second branch.
\<close>

definition message :: "nat \<Rightarrow> string \<Rightarrow> (string \<times> json) list \<Rightarrow> string option \<Rightarrow> json" where
  "message i method params sessionId =
     (case sessionId of
        Some sid \<Rightarrow>
          (if truthy (Some (JStr sid))
           then JObj [(''id'', JNum (of_nat i)), (''method'', JStr method),
                      (''params'', JObj params), (''sessionId'', JStr sid)]
           else JObj [(''id'', JNum (of_nat i)), (''method'', JStr method),
                      (''params'', JObj params)])
      | None \<Rightarrow>
          JObj [(''id'', JNum (of_nat i)), (''method'', JStr method), (''params'', JObj params)])"

text \<open>
  \<open>sendCommand(method, params = {}, sessionId?)\<close>. The result is the returned promise:
  \<open>Inl e\<close> for \<open>Promise.reject(e)\<close>, \<open>Inr h\<close> for the new promise with handle \<open>h\<close>.
\<close>

definition sendCommand ::
  "string \<Rightarrow> (string \<times> json) list option \<Rightarrow> string option \<Rightarrow> client \<Rightarrow> (error + nat) \<times> client" where
  "sendCommand method params sessionId s =
     (if readyState s \<noteq> OPEN then (Inl (Error ''WebSocket is not open''), s)
      else
        let i = incr (messageId s);
            h = length (promises s);
            ps = (case params of None \<Rightarrow> [] | Some p \<Rightarrow> p)
        in (Inr h,
            s\<lparr> messageId := i,
               promises := promises s @ [Pending],
               pendingCommands := (pendingCommands s)(i \<mapsto> h),
               sent := sent s @ [message i method ps sessionId] \<rparr>))"

text \<open>\<open>Set.prototype.add\<close>: an element already in the set keeps its place.\<close>

definition set_add :: "'a \<Rightarrow> 'a list \<Rightarrow> 'a list" where
  "set_add x xs = (if x \<in> set xs then xs else xs @ [x])"

definition on :: "string \<Rightarrow> callback \<Rightarrow> client \<Rightarrow> client" where
  "on event callback s =
     (let ls = (if eventListeners s event = None then (eventListeners s)(event \<mapsto> [])
                else eventListeners s)
      in case ls event of
           Some l \<Rightarrow> s\<lparr> eventListeners := ls(event \<mapsto> set_add callback l) \<rparr>
         | None \<Rightarrow> s)"

text \<open>\<open>ws.close()\<close> on an open socket starts the closing handshake.\<close>

definition close :: "client \<Rightarrow> client" where
  "close s = (if readyState s \<noteq> OPEN then s else s\<lparr> readyState := CLOSING \<rparr>)"

subsection \<open>The handlers \<open>ws.onopen\<close>, \<open>ws.onclose\<close>, \<open>ws.onmessage\<close>\<close>

definition onopen :: "client \<Rightarrow> client" where
  "onopen s = s\<lparr> connectionPromise := resolve () (connectionPromise s) \<rparr>"

definition onclose :: "close_event \<Rightarrow> client \<Rightarrow> client" where
  "onclose e s = s\<lparr> connectionPromise := reject e (connectionPromise s) \<rparr>"

text \<open>
  \<open>pendingCommands\<close> is a \<open>Map\<close> keyed by the numbers \<open>sendCommand\<close> allocated.
  \<open>key_of v\<close> is the key a value \<open>v\<close> is equal to (SameValueZero), if it is a number
  that a key can be; \<open>has\<close> and \<open>get\<close> are the \<open>Map\<close> methods on \<open>data.id\<close>.
\<close>

fun key_of :: "json option \<Rightarrow> nat option" where
  "key_of (Some (JNum q)) = (if 0 \<le> q \<and> of_int \<lfloor>q\<rfloor> = q then Some (nat \<lfloor>q\<rfloor>) else None)"
| "key_of v = None"

definition has :: "(nat \<rightharpoonup> 'a) \<Rightarrow> json option \<Rightarrow> bool" where
  "has tbl v = (case key_of v of Some k \<Rightarrow> tbl k \<noteq> None | None \<Rightarrow> False)"

definition get :: "(nat \<rightharpoonup> 'a) \<Rightarrow> json option \<Rightarrow> (nat \<times> 'a) option" where
  "get tbl v = (case key_of v of
                  Some k \<Rightarrow> (case tbl k of Some x \<Rightarrow> Some (k, x) | None \<Rightarrow> None)
                | None \<Rightarrow> None)"

text \<open>\<open>eventListeners.get(data.method)\<close>: the keys are strings.\<close>

fun listeners_get :: "(string \<rightharpoonup> callback list) \<Rightarrow> json option \<Rightarrow> callback list option" where
  "listeners_get tbl (Some (JStr m)) = tbl m"
| "listeners_get tbl v = None"

text \<open>Settling the promise with handle \<open>h\<close>.\<close>

definition settle ::
  "nat \<Rightarrow> ((json option, json option) promise \<Rightarrow> (json option, json option) promise) \<Rightarrow> client \<Rightarrow> client" where
  "settle h f s = s\<lparr> promises := (promises s)[h := f (promises s ! h)] \<rparr>"

text \<open>
  \<open>ws.onmessage\<close>, from the parsed \<open>data\<close> on: a frame whose text is not JSON
  makes \<open>JSON.parse\<close> throw before the handler reads anything, and is not a value
  of the model. On \<open>null\<close> the first read, \<open>data.id\<close>, throws a TypeError before
  anything is changed. The callbacks are taken to return normally and not to call
  the client while the handler runs.
\<close>

definition onmessage :: "json \<Rightarrow> client \<Rightarrow> error + client" where
  "onmessage data s =
     (if data = JNull then Inl TypeError
      else
        case (if truthy (property data ''id'') \<and> has (pendingCommands s) (property data ''id'')
              then get (pendingCommands s) (property data ''id'') else None) of
          Some (k, h) \<Rightarrow>
            (let s' = s\<lparr> pendingCommands := (pendingCommands s)(k := None) \<rparr>
             in Inr (if truthy (property data ''error'')
                     then settle h (reject (property data ''error'')) s'
                     else settle h (resolve (property data ''result'')) s'))
        | None \<Rightarrow>
            Inr (if truthy (property data ''method'')
                 then (case listeners_get (eventListeners s) (property data ''method'') of
                         Some l \<Rightarrow>
                           s\<lparr> calls := calls s @ map (\<lambda>callback. (callback, property data ''params'')) l \<rparr>
                       | None \<Rightarrow> s)
                 else s))"

subsection \<open>The socket's events and the life of a client\<close>

text \<open>
  The socket sets its \<open>readyState\<close> and then fires the handler: \<open>open\<close> when the
  connection is established, \<open>close\<close> when it is closed or could not be
  established (a failed connection fires \<open>error\<close>, for which the client has no
  handler, and then \<open>close\<close>).
\<close>

definition socket_open :: "client \<Rightarrow> client" where
  "socket_open s = onopen (s\<lparr> readyState := OPEN \<rparr>)"

definition socket_close :: "close_event \<Rightarrow> client \<Rightarrow> client" where
  "socket_close e s = onclose e (s\<lparr> readyState := CLOSED \<rparr>)"

text \<open>
  What can happen to a client, one at a time (the event loop runs one callback at a
  time): an event of the socket or a call of one of the three methods. An exception
  thrown by \<open>ws.onmessage\<close> is thrown before the handler changes anything; a
  rejected \<open>sendCommand\<close> changes nothing either.
\<close>

datatype action =
    SocketOpen
  | SocketClose close_event
  | SocketMessage json
  | SendCommand string "(string \<times> json) list option" "string option"
  | On string callback
  | Close

fun step :: "action \<Rightarrow> client \<Rightarrow> client" where
  "step SocketOpen s = socket_open s"
| "step (SocketClose e) s = socket_close e s"
| "step (SocketMessage data) s = (case onmessage data s of Inl e \<Rightarrow> s | Inr s' \<Rightarrow> s')"
| "step (SendCommand method params sessionId) s = snd (sendCommand method params sessionId s)"
| "step (On event callback) s = on event callback s"
| "step Close s = close s"

definition run :: "action list \<Rightarrow> client \<Rightarrow> client" where
  "run acts s = fold step acts s"

text \<open>
  The invariant of the closure: every pending command has an id between 1 and the
  counter and a promise of its own that is still pending; a listener set has no
  duplicates.
\<close>

definition wf :: "client \<Rightarrow> bool" where
  "wf s \<longleftrightarrow>
     (\<forall>k h. pendingCommands s k = Some h \<longrightarrow>
        1 \<le> k \<and> k \<le> messageId s \<and> h < length (promises s) \<and> promises s ! h = Pending)
     \<and> (\<forall>k k' h. pendingCommands s k = Some h \<and> pendingCommands s k' = Some h \<longrightarrow> k = k')
     \<and> (\<forall>m l. eventListeners s m = Some l \<longrightarrow> distinct l)"

text \<open>The listeners currently registered for a method, in the order of the Set.\<close>

definition listeners :: "client \<Rightarrow> string \<Rightarrow> callback list" where
  "listeners s m = (case eventListeners s m of None \<Rightarrow> [] | Some l \<Rightarrow> l)"

text \<open>
  What the specification says of the promise \<open>createClient\<close> returns: it is settled
  by the first \<open>open\<close> or \<open>close\<close> the socket signals, fulfilled by \<open>open\<close>, rejected
  with the event by \<open>close\<close>, and pending until then.
\<close>

fun spec_createClient :: "action list \<Rightarrow> (unit, close_event) promise" where
  "spec_createClient [] = Pending"
| "spec_createClient (SocketOpen # acts) = Fulfilled ()"
| "spec_createClient (SocketClose e # acts) = Rejected e"
| "spec_createClient (a # acts) = spec_createClient acts"

text \<open>The frames delivered in a history, in the order of their arrival.\<close>

fun frames_of :: "action list \<Rightarrow> json list" where
  "frames_of [] = []"
| "frames_of (SocketMessage data # acts) = data # frames_of acts"
| "frames_of (a # acts) = frames_of acts"

text \<open>
  What the specification says of the listeners of a method: the distinct callbacks
  registered for it, in the order of their first registration.
\<close>

fun registration_order :: "action list \<Rightarrow> string \<Rightarrow> callback list" where
  "registration_order [] m = []"
| "registration_order (On event callback # acts) m =
     (if event = m then callback # removeAll callback (registration_order acts m)
      else registration_order acts m)"
| "registration_order (a # acts) m = registration_order acts m"

text \<open>The id on a frame, as a key of \<open>pendingCommands\<close>.\<close>

definition frame_id :: "json \<Rightarrow> nat option" where
  "frame_id frame = key_of (property frame ''id'')"

text \<open>
  The ids on the frames sent so far and the counter, with the counter stuck at
  \<open>2^53\<close>: the \<open>k\<close>-th frame has the id \<open>min k (2^53)\<close>.
\<close>

definition ids_inv :: "client \<Rightarrow> bool" where
  "ids_inv s \<longleftrightarrow>
     messageId s = min (length (sent s)) (2 ^ 53)
     \<and> map frame_id (sent s) = map (\<lambda>k. Some (min k (2 ^ 53))) [1 ..< Suc (length (sent s))]"

text \<open>Several commands issued one after the other, with the promises returned.\<close>

fun sendCommands ::
  "(string \<times> (string \<times> json) list option \<times> string option) list \<Rightarrow> client
     \<Rightarrow> (error + nat) list \<times> client" where
  "sendCommands [] s = ([], s)"
| "sendCommands ((method, params, sessionId) # cmds) s =
     (case sendCommand method params sessionId s of
        (r, s1) \<Rightarrow> (case sendCommands cmds s1 of (rs, s2) \<Rightarrow> (r # rs, s2)))"

text \<open>How \<open>ws.onmessage\<close> settles the command a frame answers: \<open>reject(data.error)\<close>
  if \<open>data.error\<close> counts as true, \<open>resolve(data.result)\<close> otherwise.\<close>

definition outcome :: "json \<Rightarrow> (json option, json option) promise" where
  "outcome data =
     (if truthy (property data ''error'') then Rejected (property data ''error'')
      else Fulfilled (property data ''result''))"

subsection \<open>The invariant and the cases of the handlers\<close>

lemma wf_createClient: "wf createClient"
  by (simp add: wf_def createClient_def)

lemma incr_ge: "n \<le> incr n"
  by (simp add: incr_def)

lemma incr_pos: "Suc 0 \<le> incr n"
  by (simp add: incr_def)

lemma sendCommand_open:
  assumes "readyState s = OPEN"
  shows "sendCommand method params sessionId s =
     (Inr (length (promises s)),
      s\<lparr> messageId := incr (messageId s),
         promises := promises s @ [Pending],
         pendingCommands := (pendingCommands s)(incr (messageId s) \<mapsto> length (promises s)),
         sent := sent s @ [message (incr (messageId s)) method
                             (case params of None \<Rightarrow> [] | Some p \<Rightarrow> p) sessionId] \<rparr>)"
  using assms by (simp add: sendCommand_def Let_def)

lemma wf_sendCommand: "wf s \<Longrightarrow> wf (snd (sendCommand method params sessionId s))"
proof (cases "readyState s = OPEN")
  case False
  assume "wf s"
  with False show ?thesis by (simp add: sendCommand_def)
next
  case True
  assume w: "wf s"
  let ?i = "incr (messageId s)"
  let ?h = "length (promises s)"
  define s' where "s' = snd (sendCommand method params sessionId s)"
  have old: "\<And>k h. pendingCommands s k = Some h \<Longrightarrow>
      1 \<le> k \<and> k \<le> messageId s \<and> h < ?h \<and> promises s ! h = Pending"
    using w by (simp add: wf_def)
  have inj: "\<And>k k' h. pendingCommands s k = Some h \<Longrightarrow> pendingCommands s k' = Some h \<Longrightarrow> k = k'"
    using w unfolding wf_def by blast
  have dl: "\<And>m l. eventListeners s m = Some l \<Longrightarrow> distinct l"
    using w unfolding wf_def by blast
  have f: "messageId s' = ?i" "promises s' = promises s @ [Pending]"
    "pendingCommands s' = (pendingCommands s)(?i \<mapsto> ?h)" "eventListeners s' = eventListeners s"
    by (simp_all add: s'_def sendCommand_open [OF True])
  have p1: "1 \<le> k \<and> k \<le> ?i \<and> h < length (promises s @ [Pending])
       \<and> (promises s @ [Pending]) ! h = Pending"
    if "((pendingCommands s)(?i \<mapsto> ?h)) k = Some h" for k h
  proof -
    from that have "(k = ?i \<and> h = ?h) \<or> (k \<noteq> ?i \<and> pendingCommands s k = Some h)"
      by (simp split: if_splits)
    then show ?thesis
    proof
      assume "k = ?i \<and> h = ?h"
      then show ?thesis by (simp add: incr_pos)
    next
      assume "k \<noteq> ?i \<and> pendingCommands s k = Some h"
      then have "1 \<le> k \<and> k \<le> messageId s \<and> h < ?h \<and> promises s ! h = Pending"
        using old by blast
      moreover have "messageId s \<le> ?i" by (rule incr_ge)
      ultimately show ?thesis by (simp add: nth_append)
    qed
  qed
  have p2: "k = k'"
    if "((pendingCommands s)(?i \<mapsto> ?h)) k = Some h" "((pendingCommands s)(?i \<mapsto> ?h)) k' = Some h"
    for k k' h
  proof -
    from that have a: "(if k = ?i then ?h = h else pendingCommands s k = Some h)"
      and b: "(if k' = ?i then ?h = h else pendingCommands s k' = Some h)"
      by (simp_all split: if_splits)
    show "k = k'"
    proof (cases "h = ?h")
      case True
      have "k = ?i" using a True old [of k h] by (auto split: if_splits)
      moreover have "k' = ?i" using b True old [of k' h] by (auto split: if_splits)
      ultimately show ?thesis by simp
    next
      case False
      then show ?thesis using a b inj [of k h k'] by (auto split: if_splits)
    qed
  qed
  have "wf s'"
    unfolding wf_def f using p1 p2 dl by blast
  then show ?thesis by (simp add: s'_def)
qed

lemma distinct_set_add: "distinct l \<Longrightarrow> distinct (set_add x l)"
  by (simp add: set_add_def)

lemma on_eventListeners:
  "eventListeners (on event callback s) =
     (eventListeners s)(event \<mapsto> set_add callback (case eventListeners s event of None \<Rightarrow> [] | Some l \<Rightarrow> l))"
  by (auto simp: on_def Let_def split: option.splits)

lemma on_others:
  "readyState (on event callback s) = readyState s"
  "sent (on event callback s) = sent s"
  "connectionPromise (on event callback s) = connectionPromise s"
  "messageId (on event callback s) = messageId s"
  "pendingCommands (on event callback s) = pendingCommands s"
  "promises (on event callback s) = promises s"
  "calls (on event callback s) = calls s"
  by (simp_all add: on_def Let_def split: option.splits)

lemma wf_on: "wf s \<Longrightarrow> wf (on event callback s)"
  unfolding wf_def on_others on_eventListeners
  by (auto simp: distinct_set_add split: option.splits if_splits)

lemma wf_close: "wf s \<Longrightarrow> wf (close s)"
  by (simp add: wf_def close_def)

lemma wf_socket_open: "wf s \<Longrightarrow> wf (socket_open s)"
  by (simp add: wf_def socket_open_def onopen_def)

lemma wf_socket_close: "wf s \<Longrightarrow> wf (socket_close e s)"
  by (simp add: wf_def socket_close_def onclose_def)

lemma get_SomeD: "get tbl v = Some (k, h) \<Longrightarrow> key_of v = Some k \<and> tbl k = Some h"
  by (auto simp: get_def split: option.splits)

lemma has_get: "has tbl v \<longleftrightarrow> get tbl v \<noteq> None"
  by (auto simp: has_def get_def split: option.splits)

lemma key_of_truthy: "key_of v = Some k \<Longrightarrow> Suc 0 \<le> k \<Longrightarrow> truthy v"
  by (cases v rule: key_of.cases) (auto split: if_splits)


lemma onmessage_null: "onmessage JNull s = Inl TypeError"
  by (simp add: onmessage_def)

lemma onmessage_response:
  assumes "data \<noteq> JNull" and "get (pendingCommands s) (property data ''id'') = Some (k, h)"
    and "Suc 0 \<le> k"
  shows "onmessage data s =
     Inr (settle h (if truthy (property data ''error'') then reject (property data ''error'')
                    else resolve (property data ''result''))
            (s\<lparr> pendingCommands := (pendingCommands s)(k := None) \<rparr>))"
proof -
  have "key_of (property data ''id'') = Some k"
    using get_SomeD [OF assms(2)] by simp
  then have "truthy (property data ''id'')"
    using assms(3) by (rule key_of_truthy)
  moreover have "has (pendingCommands s) (property data ''id'')"
    using assms(2) by (simp add: has_get)
  ultimately show ?thesis
    using assms(1,2) by (simp add: onmessage_def Let_def)
qed

lemma onmessage_event:
  assumes "data \<noteq> JNull" and "get (pendingCommands s) (property data ''id'') = None"
  shows "onmessage data s =
     Inr (if truthy (property data ''method'')
          then (case listeners_get (eventListeners s) (property data ''method'') of
                  Some l \<Rightarrow> s\<lparr> calls := calls s @ map (\<lambda>callback. (callback, property data ''params'')) l \<rparr>
                | None \<Rightarrow> s)
          else s)"
  using assms by (simp add: onmessage_def)

lemma wf_onmessage:
  assumes w: "wf s" and r: "onmessage data s = Inr s'"
  shows "wf s'"
proof -
  have nn: "data \<noteq> JNull" using r by (auto simp: onmessage_def)
  show ?thesis
  proof (cases "get (pendingCommands s) (property data ''id'')")
    case None
    have fs: "messageId s' = messageId s" "eventListeners s' = eventListeners s"
      "pendingCommands s' = pendingCommands s" "promises s' = promises s"
      using onmessage_event [OF nn None] r by (auto split: if_splits option.splits)
    show ?thesis using w unfolding wf_def fs .
  next
    case (Some kh)
    obtain k h where kh: "kh = (k, h)" by (cases kh)
    have pk: "pendingCommands s k = Some h" using get_SomeD [OF Some [unfolded kh]] by simp
    have old: "\<And>k h. pendingCommands s k = Some h \<Longrightarrow>
        Suc 0 \<le> k \<and> k \<le> messageId s \<and> h < length (promises s) \<and> promises s ! h = Pending"
      using w by (simp add: wf_def)
    have inj: "\<And>k k' h. pendingCommands s k = Some h \<Longrightarrow> pendingCommands s k' = Some h \<Longrightarrow> k = k'"
      using w unfolding wf_def by blast
    have dl: "\<And>m l. eventListeners s m = Some l \<Longrightarrow> distinct l"
      using w unfolding wf_def by blast
    have k1: "Suc 0 \<le> k" using old pk by blast
    define f where "f = (if truthy (property data ''error'') then reject (property data ''error'')
                    else resolve (property data ''result''))"
    have s': "s' = settle h f (s\<lparr> pendingCommands := (pendingCommands s)(k := None) \<rparr>)"
      using onmessage_response [OF nn Some [unfolded kh] k1] r by (simp add: f_def)
    have fs: "messageId s' = messageId s" "eventListeners s' = eventListeners s"
      "pendingCommands s' = (pendingCommands s)(k := None)"
      "promises s' = (promises s)[h := f (promises s ! h)]"
      by (simp_all add: s' settle_def)
    have p1: "Suc 0 \<le> j \<and> j \<le> messageId s \<and> g < length ((promises s)[h := f (promises s ! h)])
        \<and> (promises s)[h := f (promises s ! h)] ! g = Pending"
      if "((pendingCommands s)(k := None)) j = Some g" for j g
    proof -
      from that have jk: "j \<noteq> k" and pj: "pendingCommands s j = Some g"
        by (simp_all split: if_splits)
      have "g \<noteq> h" using inj [OF pj] pk jk by auto
      then show ?thesis using old [OF pj] by simp
    qed
    have p2: "j = j'"
      if "((pendingCommands s)(k := None)) j = Some g" "((pendingCommands s)(k := None)) j' = Some g" for j j' g
      using that inj [of j g j'] by (simp split: if_splits)
    show ?thesis
    proof -
      have c1: "\<forall>j g. ((pendingCommands s)(k := None)) j = Some g \<longrightarrow>
          1 \<le> j \<and> j \<le> messageId s \<and> g < length ((promises s)[h := f (promises s ! h)])
          \<and> (promises s)[h := f (promises s ! h)] ! g = Pending"
        unfolding One_nat_def by (intro allI impI) (rule p1)
      have c2: "\<forall>j j' g. ((pendingCommands s)(k := None)) j = Some g
          \<and> ((pendingCommands s)(k := None)) j' = Some g \<longrightarrow> j = j'"
        by (intro allI impI) (erule conjE, rule p2)
      have c3: "\<forall>m l. eventListeners s m = Some l \<longrightarrow> distinct l"
        by (intro allI impI) (rule dl)
      show ?thesis
        unfolding wf_def fs using c1 c2 c3 by (intro conjI)
    qed
  qed
qed

lemma wf_step: "wf s \<Longrightarrow> wf (step a s)"
proof (cases a)
  case (SocketMessage data)
  assume w: "wf s"
  show ?thesis
  proof (cases "onmessage data s")
    case (Inl e)
    with w SocketMessage show ?thesis by simp
  next
    case (Inr s')
    with wf_onmessage [OF w Inr] SocketMessage show ?thesis by simp
  qed
qed (simp_all add: wf_socket_open wf_socket_close wf_sendCommand wf_on wf_close)

lemma wf_run: "wf s \<Longrightarrow> wf (run acts s)"
  unfolding run_def by (induction acts arbitrary: s) (simp_all add: wf_step)

lemma property_message:
  "property (message i method params sessionId) ''id'' = Some (JNum (of_nat i))"
  "property (message i method params sessionId) ''method'' = Some (JStr method)"
  "property (message i method params sessionId) ''params'' = Some (JObj params)"
  "property (message i method params sessionId) ''sessionId'' =
     (case sessionId of None \<Rightarrow> None | Some sid \<Rightarrow> if sid = [] then None else Some (JStr sid))"
  by (simp_all add: message_def split: option.splits)

lemma message_no_sessionId:
  "message i method params None =
     JObj [(''id'', JNum (of_nat i)), (''method'', JStr method), (''params'', JObj params)]"
  by (simp add: message_def)

lemma sendCommand_sent:
  "readyState s = OPEN \<Longrightarrow>
   sent (snd (sendCommand method params sessionId s)) =
     sent s @ [message (incr (messageId s)) method (case params of None \<Rightarrow> [] | Some p \<Rightarrow> p) sessionId]"
  by (simp add: sendCommand_open)

lemma get_not_null: "get tbl (property data ''id'') = Some kh \<Longrightarrow> data \<noteq> JNull"
  by (auto simp: get_def)

lemma wf_pending:
  "wf s \<Longrightarrow> pendingCommands s k = Some h \<Longrightarrow>
     Suc 0 \<le> k \<and> k \<le> messageId s \<and> h < length (promises s) \<and> promises s ! h = Pending"
  by (simp add: wf_def)

lemma settle_fields:
  "promises (settle h f s) = (promises s)[h := f (promises s ! h)]"
  "pendingCommands (settle h f s) = pendingCommands s"
  "calls (settle h f s) = calls s"
  "eventListeners (settle h f s) = eventListeners s"
  "messageId (settle h f s) = messageId s"
  "sent (settle h f s) = sent s"
  "readyState (settle h f s) = readyState s"
  "connectionPromise (settle h f s) = connectionPromise s"
  by (simp_all add: settle_def)

text \<open>The state after a frame that answers the pending command \<open>k\<close> with handle \<open>h\<close>.\<close>

lemma onmessage_response_wf:
  assumes w: "wf s" and g: "get (pendingCommands s) (property data ''id'') = Some (k, h)"
  shows "onmessage data s =
     Inr (s\<lparr> pendingCommands := (pendingCommands s)(k := None),
            promises := (promises s)[h := (if truthy (property data ''error'')
                                          then Rejected (property data ''error'')
                                          else Fulfilled (property data ''result''))] \<rparr>)"
proof -
  have pk: "pendingCommands s k = Some h" using get_SomeD [OF g] by simp
  have k1: "Suc 0 \<le> k" and hp: "promises s ! h = Pending"
    using wf_pending [OF w pk] by simp_all
  show ?thesis
    using onmessage_response [OF get_not_null [OF g] g k1] hp
    by (simp add: settle_def)
qed

lemma onmessage_event_listeners:
  assumes "data \<noteq> JNull" and "get (pendingCommands s) (property data ''id'') = None"
    and "property data ''method'' = Some (JStr m)" and "m \<noteq> []"
  shows "onmessage data s =
     Inr (s\<lparr> calls := calls s @ map (\<lambda>callback. (callback, property data ''params'')) (listeners s m) \<rparr>)"
  using assms by (simp add: onmessage_event listeners_def split: option.splits)

lemma onmessage_dropped:
  assumes "data \<noteq> JNull" and "get (pendingCommands s) (property data ''id'') = None"
    and "\<forall>m. property data ''method'' = Some (JStr m) \<and> m \<noteq> [] \<longrightarrow> listeners s m = []"
  shows "onmessage data s = Inr s"
proof (cases "property data ''method''")
  case None
  then show ?thesis using assms(1,2) by (simp add: onmessage_event)
next
  case (Some v)
  show ?thesis
  proof (cases v)
    case (JStr m)
    show ?thesis
    proof (cases "m = []")
      case True
      then show ?thesis using assms(1,2) Some JStr by (simp add: onmessage_event)
    next
      case False
      then have "listeners s m = []" using assms(3) Some JStr by simp
      then show ?thesis
        using onmessage_event_listeners [OF assms(1,2) Some [unfolded JStr] False] by simp
    qed
  qed (use assms(1,2) Some in \<open>simp_all add: onmessage_event\<close>)
qed

lemma wf_opened: "wf (socket_open createClient)"
  by (rule wf_socket_open) (rule wf_createClient)

lemma run_Nil: "run [] s = s"
  by (simp add: run_def)

lemma run_Cons: "run (a # acts) s = run acts (step a s)"
  by (simp add: run_def)

lemma run_append: "run (acts @ later) s = run later (run acts s)"
  by (simp add: run_def)

lemma connectionPromise_step:
  "connectionPromise (step a s) =
     (case a of SocketOpen \<Rightarrow> resolve () (connectionPromise s)
      | SocketClose e \<Rightarrow> reject e (connectionPromise s)
      | _ \<Rightarrow> connectionPromise s)"
proof (cases a)
  case (SocketMessage data)
  then show ?thesis
    by (cases "get (pendingCommands s) (property data ''id'')")
       (auto simp: onmessage_def Let_def settle_fields split: sum.splits if_splits option.splits)
next
  case (SendCommand m p sid)
  then show ?thesis by (simp add: sendCommand_def Let_def)
qed (simp_all add: socket_open_def socket_close_def onopen_def onclose_def on_others close_def)

lemma connectionPromise_run:
  "connectionPromise (run acts s) =
     (case connectionPromise s of Pending \<Rightarrow> spec_createClient acts | p \<Rightarrow> p)"
proof (induction acts arbitrary: s)
  case Nil
  then show ?case by (simp add: run_Nil split: promise.splits)
next
  case (Cons a acts)
  show ?case
    unfolding run_Cons Cons.IH connectionPromise_step
    by (cases a; cases "connectionPromise s") simp_all
qed

lemma set_add_idem: "set_add x (set_add x xs) = set_add x xs"
  by (simp add: set_add_def)

lemma on_idem: "on event callback (on event callback s) = on event callback s"
  by (simp add: on_def Let_def set_add_idem split: option.splits)

lemma listeners_on:
  "listeners (on event callback s) m =
     (if event = m then set_add callback (listeners s m) else listeners s m)"
  by (simp add: listeners_def on_eventListeners)

lemma eventListeners_step:
  "eventListeners (step a s) =
     (case a of On event callback \<Rightarrow> eventListeners (on event callback s) | _ \<Rightarrow> eventListeners s)"
proof (cases a)
  case (SocketMessage data)
  then show ?thesis
    by (auto simp: onmessage_def Let_def settle_fields split: sum.splits if_splits option.splits)
next
  case (SendCommand m p sid)
  then show ?thesis by (simp add: sendCommand_def Let_def)
qed (simp_all add: socket_open_def socket_close_def onopen_def onclose_def close_def)

lemma listeners_step:
  "listeners (step a s) m =
     (case a of On event callback \<Rightarrow> (if event = m then set_add callback (listeners s m) else listeners s m)
      | _ \<Rightarrow> listeners s m)"
proof (cases a)
  case (On event callback)
  then show ?thesis by (simp add: listeners_on)
qed (simp_all add: listeners_def eventListeners_step del: step.simps)

lemma listeners_run:
  "listeners (run acts s) m =
     listeners s m @ filter (\<lambda>c. c \<notin> set (listeners s m)) (registration_order acts m)"
proof (induction acts arbitrary: s)
  case Nil
  then show ?case by (simp add: run_Nil)
next
  case (Cons a acts)
  show ?case
    unfolding run_Cons Cons.IH listeners_step
    by (cases a) (auto simp: set_add_def removeAll_filter_not_eq intro: filter_cong)
qed

lemma distinct_registration_order: "distinct (registration_order acts m)"
  by (induction acts m rule: registration_order.induct) (simp_all add: distinct_removeAll)

lemma set_registration_order:
  "set (registration_order acts m) = {callback. On m callback \<in> set acts}"
  by (induction acts m rule: registration_order.induct) auto

lemma on_registered:
  assumes "callback \<in> set (listeners s event)"
  shows "on event callback s = s"
proof -
  obtain l where l: "eventListeners s event = Some l" and c: "callback \<in> set l"
    using assms by (cases "eventListeners s event") (simp_all add: listeners_def)
  have "(eventListeners s)(event \<mapsto> l) = eventListeners s"
    using l by (rule map_upd_triv)
  then show ?thesis
    using l c by (simp add: on_def Let_def set_add_def)
qed

lemma key_of_nat: "key_of (Some (JNum (of_nat i))) = Some i"
  by simp

lemma frame_id_message: "frame_id (message i method params sessionId) = Some i"
  by (simp add: frame_id_def property_message key_of_nat del: key_of.simps)

lemma incr_min: "incr (min n (2 ^ 53)) = min (Suc n) (2 ^ 53)"
  by (simp add: incr_def min_def)

lemma sent_step:
  "sent (step a s) =
     (case a of
        SendCommand method params sessionId \<Rightarrow>
          (if readyState s = OPEN
           then sent s @ [message (incr (messageId s)) method
                            (case params of None \<Rightarrow> [] | Some p \<Rightarrow> p) sessionId]
           else sent s)
      | _ \<Rightarrow> sent s)"
proof (cases a)
  case (SocketMessage data)
  then show ?thesis
    by (auto simp: onmessage_def Let_def settle_fields split: sum.splits if_splits option.splits)
next
  case (SendCommand m p sid)
  then show ?thesis by (simp add: sendCommand_def Let_def)
qed (simp_all add: socket_open_def socket_close_def onopen_def onclose_def close_def on_others)

lemma messageId_step:
  "messageId (step a s) =
     (case a of
        SendCommand method params sessionId \<Rightarrow>
          (if readyState s = OPEN then incr (messageId s) else messageId s)
      | _ \<Rightarrow> messageId s)"
proof (cases a)
  case (SocketMessage data)
  then show ?thesis
    by (auto simp: onmessage_def Let_def settle_fields split: sum.splits if_splits option.splits)
next
  case (SendCommand m p sid)
  then show ?thesis by (simp add: sendCommand_def Let_def)
qed (simp_all add: socket_open_def socket_close_def onopen_def onclose_def close_def on_others)

lemma ids_inv_step: "ids_inv s \<Longrightarrow> ids_inv (step a s)"
proof -
  assume i: "ids_inv s"
  show ?thesis
  proof (cases "\<exists>m p sid. a = SendCommand m p sid \<and> readyState s = OPEN")
    case False
    then have "sent (step a s) = sent s" "messageId (step a s) = messageId s"
      unfolding sent_step messageId_step by (cases a; simp)+
    then show ?thesis using i by (simp add: ids_inv_def)
  next
    case True
    then obtain m p sid where a: "a = SendCommand m p sid" and o: "readyState s = OPEN" by blast
    have s1: "sent (step a s) = sent s @ [message (incr (messageId s)) m
                             (case p of None \<Rightarrow> [] | Some p \<Rightarrow> p) sid]"
      and m1: "messageId (step a s) = incr (messageId s)"
      unfolding sent_step messageId_step using a o by simp_all
    have mi: "incr (messageId s) = min (Suc (length (sent s))) (2 ^ 53)"
      using i incr_min by (simp add: ids_inv_def)
    show ?thesis
      unfolding ids_inv_def s1 m1
      using i mi by (simp add: ids_inv_def frame_id_message)
  qed
qed

lemma ids_inv_run: "ids_inv s \<Longrightarrow> ids_inv (run acts s)"
  by (induction acts arbitrary: s) (simp_all add: run_Nil run_Cons ids_inv_step)

lemma ids_inv_createClient: "ids_inv createClient"
  by (simp add: ids_inv_def createClient_def)

lemma frame_id_nth:
  assumes "ids_inv s" and "k < length (sent s)"
  shows "frame_id (sent s ! k) = Some (min (Suc k) (2 ^ 53))"
proof -
  have "frame_id (sent s ! k) = map frame_id (sent s) ! k"
    using assms(2) by simp
  also have "\<dots> = map (\<lambda>k. Some (min k (2 ^ 53))) [1 ..< Suc (length (sent s))] ! k"
    using assms(1) by (simp add: ids_inv_def)
  also have "\<dots> = Some (min (Suc k) (2 ^ 53))"
    using assms(2) by (simp del: upt_Suc)
  finally show ?thesis .
qed

lemma run_sends:
  "readyState s = OPEN \<Longrightarrow>
     readyState (run (replicate n (SendCommand method params sessionId)) s) = OPEN
     \<and> length (sent (run (replicate n (SendCommand method params sessionId)) s)) = length (sent s) + n"
proof (induction n arbitrary: s)
  case 0
  then show ?case by (simp add: run_Nil)
next
  case (Suc n)
  have "readyState (step (SendCommand method params sessionId) s) = OPEN"
    using Suc.prems by (simp add: sendCommand_open)
  from Suc.IH [OF this] show ?case
    using Suc.prems by (simp add: run_Cons sendCommand_open)
qed

lemma get_frame_id:
  "get tbl (property data ''id'') =
     (case frame_id data of None \<Rightarrow> None
      | Some k \<Rightarrow> (case tbl k of None \<Rightarrow> None | Some x \<Rightarrow> Some (k, x)))"
  by (simp add: get_def frame_id_def)

lemma step_response:
  assumes "wf s" and "frame_id data = Some k" and "pendingCommands s k = Some h"
  shows "step (SocketMessage data) s =
     s\<lparr> pendingCommands := (pendingCommands s)(k := None),
        promises := (promises s)[h := outcome data] \<rparr>"
proof -
  have "get (pendingCommands s) (property data ''id'') = Some (k, h)"
    using assms(2,3) by (simp add: get_frame_id)
  from onmessage_response_wf [OF assms(1) this] show ?thesis
    by (simp add: outcome_def)
qed

lemma step_no_response:
  assumes "get (pendingCommands s) (property data ''id'') = None"
  shows "promises (step (SocketMessage data) s) = promises s
     \<and> pendingCommands (step (SocketMessage data) s) = pendingCommands s"
proof (cases "data = JNull")
  case True
  then show ?thesis by (simp add: onmessage_null)
next
  case False
  show ?thesis
    by (simp add: onmessage_event [OF False assms] split: option.splits)
qed

lemma step_message_cases:
  assumes "wf s"
  shows "(promises (step (SocketMessage data) s) = promises s
          \<and> pendingCommands (step (SocketMessage data) s) = pendingCommands s)
     \<or> (\<exists>k h. frame_id data = Some k \<and> pendingCommands s k = Some h
          \<and> step (SocketMessage data) s =
              s\<lparr> pendingCommands := (pendingCommands s)(k := None),
                 promises := (promises s)[h := outcome data] \<rparr>)"
proof (cases "get (pendingCommands s) (property data ''id'')")
  case None
  then show ?thesis using step_no_response by blast
next
  case (Some kh)
  obtain k h where kh: "kh = (k, h)" by (cases kh)
  have "frame_id data = Some k" "pendingCommands s k = Some h"
    using get_SomeD [OF Some [unfolded kh]] by (simp_all add: frame_id_def)
  then show ?thesis using step_response [OF assms] by blast
qed

text \<open>Frames only remove entries of \<open>pendingCommands\<close>.\<close>

lemma receive_pending_mono:
  "wf s \<Longrightarrow> pendingCommands (run (map SocketMessage frames) s) k = Some h \<Longrightarrow>
     pendingCommands s k = Some h"
proof (induction frames arbitrary: s)
  case Nil
  then show ?case by (simp add: run_Nil)
next
  case (Cons f frames)
  have w: "wf (step (SocketMessage f) s)" using Cons.prems(1) by (rule wf_step)
  have "pendingCommands (step (SocketMessage f) s) k = Some h"
    using Cons.IH [OF w] Cons.prems(2) by (simp add: run_Cons)
  then show ?case
    using step_message_cases [OF Cons.prems(1), of f] by (auto split: if_splits)
qed

text \<open>A promise that no pending entry refers to is never touched by a frame.\<close>

lemma receive_untracked:
  "wf s \<Longrightarrow> (\<And>k. pendingCommands s k \<noteq> Some h) \<Longrightarrow>
     promises (run (map SocketMessage frames) s) ! h = promises s ! h"
proof (induction frames arbitrary: s)
  case Nil
  then show ?case by (simp add: run_Nil)
next
  case (Cons f frames)
  have w: "wf (step (SocketMessage f) s)" using Cons.prems(1) by (rule wf_step)
  have st: "promises (step (SocketMessage f) s) ! h = promises s ! h
      \<and> (\<forall>k. pendingCommands (step (SocketMessage f) s) k \<noteq> Some h)"
    using step_message_cases [OF Cons.prems(1), of f]
  proof
    assume "promises (step (SocketMessage f) s) = promises s
          \<and> pendingCommands (step (SocketMessage f) s) = pendingCommands s"
    then show ?thesis using Cons.prems(2) by simp
  next
    assume "\<exists>k h. frame_id f = Some k \<and> pendingCommands s k = Some h
          \<and> step (SocketMessage f) s =
              s\<lparr> pendingCommands := (pendingCommands s)(k := None),
                 promises := (promises s)[h := outcome f] \<rparr>"
    then obtain k g where p: "pendingCommands s k = Some g"
      and e: "step (SocketMessage f) s =
              s\<lparr> pendingCommands := (pendingCommands s)(k := None),
                 promises := (promises s)[g := outcome f] \<rparr>" by blast
    have "g \<noteq> h" using p Cons.prems(2) [of k] by auto
    then show ?thesis unfolding e using Cons.prems(2) by simp
  qed
  show ?case
    using Cons.IH [OF w] st by (simp add: run_Cons)
qed

lemma wf_inj: "wf s \<Longrightarrow> pendingCommands s k = Some h \<Longrightarrow> pendingCommands s k' = Some h \<Longrightarrow> k = k'"
  unfolding wf_def by blast

text \<open>
  The command pending under the id \<open>i\<close> is settled by the first frame with that id,
  as that frame says, and by no other frame.
\<close>

lemma receive_settles:
  "wf s \<Longrightarrow> pendingCommands s i = Some h \<Longrightarrow>
     promises (run (map SocketMessage frames) s) ! h =
       (case find (\<lambda>f. frame_id f = Some i) frames of None \<Rightarrow> Pending | Some f \<Rightarrow> outcome f)
     \<and> pendingCommands (run (map SocketMessage frames) s) i =
       (if \<exists>f\<in>set frames. frame_id f = Some i then None else Some h)"
proof (induction frames arbitrary: s)
  case Nil
  then show ?case using wf_pending [OF Nil.prems] by (simp add: run_Nil)
next
  case (Cons f frames)
  let ?s' = "step (SocketMessage f) s"
  have w': "wf ?s'" using Cons.prems(1) by (rule wf_step)
  show ?case
  proof (cases "frame_id f = Some i")
    case True
    have e: "?s' = s\<lparr> pendingCommands := (pendingCommands s)(i := None),
                 promises := (promises s)[h := outcome f] \<rparr>"
      using step_response [OF Cons.prems(1) True Cons.prems(2)] .
    have hl: "h < length (promises s)" using wf_pending [OF Cons.prems] by simp
    have un: "pendingCommands ?s' k \<noteq> Some h" for k
      unfolding e using wf_inj [OF Cons.prems(1) _ Cons.prems(2), of k] by auto
    have a: "promises (run (map SocketMessage frames) ?s') ! h = outcome f"
      using receive_untracked [OF w' un] hl unfolding e by simp
    have "pendingCommands ?s' i = None" unfolding e by simp
    then have b: "pendingCommands (run (map SocketMessage frames) ?s') i = None"
      using receive_pending_mono [OF w', of frames i]
      by (cases "pendingCommands (run (map SocketMessage frames) ?s') i") auto
    show ?thesis
      using a b True by (simp add: run_Cons del: step.simps)
  next
    case False
    have p': "pendingCommands ?s' i = Some h"
      using step_message_cases [OF Cons.prems(1), of f]
    proof
      assume "promises ?s' = promises s \<and> pendingCommands ?s' = pendingCommands s"
      then show ?thesis using Cons.prems(2) by simp
    next
      assume "\<exists>k h. frame_id f = Some k \<and> pendingCommands s k = Some h
          \<and> ?s' = s\<lparr> pendingCommands := (pendingCommands s)(k := None),
                 promises := (promises s)[h := outcome f] \<rparr>"
      then obtain k g where k: "frame_id f = Some k"
        and e: "?s' = s\<lparr> pendingCommands := (pendingCommands s)(k := None),
                 promises := (promises s)[g := outcome f] \<rparr>" by blast
      have "k \<noteq> i" using k False by auto
      then show ?thesis unfolding e using Cons.prems(2) by simp
    qed
    show ?thesis
      using Cons.IH [OF w' p'] False by (simp add: run_Cons del: step.simps)
  qed
qed

lemma sendCommands_Cons:
  "sendCommands ((method, params, sessionId) # cmds) s =
     (fst (sendCommand method params sessionId s)
        # fst (sendCommands cmds (snd (sendCommand method params sessionId s))),
      snd (sendCommands cmds (snd (sendCommand method params sessionId s))))"
  by (simp split: prod.splits)

lemma sendCommands_run:
  "snd (sendCommands cmds s) = run (map (\<lambda>(method, params, sessionId). SendCommand method params sessionId) cmds) s"
proof (induction cmds arbitrary: s)
  case Nil
  then show ?case by (simp add: run_Nil)
next
  case (Cons c cmds)
  obtain m p sid where c: "c = (m, p, sid)" by (cases c)
  show ?case
    unfolding c sendCommands_Cons by (simp add: run_Cons Cons.IH)
qed

lemma wf_sendCommands: "wf s \<Longrightarrow> wf (snd (sendCommands cmds s))"
  unfolding sendCommands_run by (rule wf_run)

lemma sendCommands_open:
  "readyState s = OPEN \<Longrightarrow>
     (n < length cmds \<longrightarrow> fst (sendCommands cmds s) ! n = Inr (length (promises s) + n))
     \<and> promises (snd (sendCommands cmds s)) = promises s @ replicate (length cmds) Pending
     \<and> readyState (snd (sendCommands cmds s)) = OPEN
     \<and> length (sent (snd (sendCommands cmds s))) = length (sent s) + length cmds"
proof (induction cmds arbitrary: s n)
  case Nil
  then show ?case by simp
next
  case (Cons c cmds)
  obtain m p sid where c: "c = (m, p, sid)" by (cases c)
  let ?s1 = "snd (sendCommand m p sid s)"
  have o1: "readyState ?s1 = OPEN" and p1: "promises ?s1 = promises s @ [Pending]"
    and l1: "length (sent ?s1) = Suc (length (sent s))"
    and r: "fst (sendCommand m p sid s) = Inr (length (promises s))"
    using Cons.prems by (simp_all add: sendCommand_open)
  show ?case
  proof (cases n)
    case 0
    show ?thesis
      unfolding c sendCommands_Cons
      using Cons.IH [OF o1, of 0] p1 l1 r 0 by (simp add: replicate_app_Cons_same)
  next
    case (Suc n')
    show ?thesis
      unfolding c sendCommands_Cons
      using Cons.IH [OF o1, of n'] p1 l1 r Suc by (simp add: replicate_app_Cons_same)
  qed
qed

lemma sendCommands_keeps:
  "messageId s + length cmds \<le> 2 ^ 53 \<Longrightarrow>
     (k \<le> messageId s \<longrightarrow> pendingCommands (snd (sendCommands cmds s)) k = pendingCommands s k)
     \<and> (j < length (sent s) \<longrightarrow> sent (snd (sendCommands cmds s)) ! j = sent s ! j)"
proof (induction cmds arbitrary: s)
  case Nil
  then show ?case by simp
next
  case (Cons c cmds)
  obtain m p sid where c: "c = (m, p, sid)" by (cases c)
  let ?s1 = "snd (sendCommand m p sid s)"
  have lt: "messageId s < 2 ^ 53" using Cons.prems by simp
  have m1: "messageId s \<le> messageId ?s1" "messageId ?s1 \<le> Suc (messageId s)"
    and k1: "k \<le> messageId s \<longrightarrow> pendingCommands ?s1 k = pendingCommands s k"
    and j1: "j < length (sent s) \<longrightarrow> sent ?s1 ! j = sent s ! j"
    and l1: "length (sent s) \<le> length (sent ?s1)"
    using lt by (simp_all add: sendCommand_def Let_def incr_def nth_append)
  have b: "messageId ?s1 + length cmds \<le> 2 ^ 53" using Cons.prems m1 by simp
  show ?case
    unfolding c sendCommands_Cons
    using Cons.IH [OF b] m1 k1 j1 l1 by simp
qed

lemma sendCommands_allocates:
  "readyState s = OPEN \<Longrightarrow> messageId s + length cmds \<le> 2 ^ 53 \<Longrightarrow> n < length cmds \<Longrightarrow>
     pendingCommands (snd (sendCommands cmds s)) (messageId s + n + 1) = Some (length (promises s) + n)
     \<and> frame_id (sent (snd (sendCommands cmds s)) ! (length (sent s) + n)) = Some (messageId s + n + 1)"
proof (induction cmds arbitrary: s n)
  case Nil
  then show ?case by simp
next
  case (Cons c cmds)
  obtain m p sid where c: "c = (m, p, sid)" by (cases c)
  let ?s1 = "snd (sendCommand m p sid s)"
  have lt: "messageId s < 2 ^ 53" using Cons.prems(2) by simp
  have o1: "readyState ?s1 = OPEN" and m1: "messageId ?s1 = Suc (messageId s)"
    and p1: "length (promises ?s1) = Suc (length (promises s))"
    and l1: "length (sent ?s1) = Suc (length (sent s))"
    and k1: "pendingCommands ?s1 (Suc (messageId s)) = Some (length (promises s))"
    and f1: "frame_id (sent ?s1 ! length (sent s)) = Some (Suc (messageId s))"
    using Cons.prems(1) lt by (simp_all add: sendCommand_open incr_def frame_id_message)
  have b: "messageId ?s1 + length cmds \<le> 2 ^ 53" using Cons.prems(2) m1 by simp
  show ?case
  proof (cases n)
    case 0
    have "pendingCommands (snd (sendCommands cmds ?s1)) (Suc (messageId s)) = pendingCommands ?s1 (Suc (messageId s))"
      "sent (snd (sendCommands cmds ?s1)) ! length (sent s) = sent ?s1 ! length (sent s)"
      using sendCommands_keeps [OF b, of "Suc (messageId s)" "length (sent s)"] m1 l1 by simp_all
    then show ?thesis
      unfolding c sendCommands_Cons using 0 k1 f1 by simp
  next
    case (Suc n')
    then have "n' < length cmds" using Cons.prems(3) by simp
    from Cons.IH [OF o1 b this] show ?thesis
      unfolding c sendCommands_Cons using Suc m1 p1 l1 by simp
  qed
qed

lemma sendCommands_last:
  "readyState s = OPEN \<Longrightarrow> cmds \<noteq> [] \<Longrightarrow>
     pendingCommands (snd (sendCommands cmds s)) (messageId (snd (sendCommands cmds s)))
       = Some (length (promises s) + length cmds - 1)"
proof (induction cmds arbitrary: s)
  case Nil
  then show ?case by simp
next
  case (Cons c cmds)
  obtain m p sid where c: "c = (m, p, sid)" by (cases c)
  let ?s1 = "snd (sendCommand m p sid s)"
  have o1: "readyState ?s1 = OPEN"
    and p1: "length (promises ?s1) = Suc (length (promises s))"
    and k1: "pendingCommands ?s1 (messageId ?s1) = Some (length (promises s))"
    using Cons.prems(1) by (simp_all add: sendCommand_open)
  show ?case
  proof (cases "cmds = []")
    case True
    then show ?thesis unfolding c sendCommands_Cons using k1 by simp
  next
    case False
    then have "0 < length cmds" by simp
    then show ?thesis
      unfolding c sendCommands_Cons using Cons.IH [OF o1 False] p1 by simp
  qed
qed

lemma ids_inv_opened: "ids_inv (socket_open createClient)"
  using ids_inv_step [OF ids_inv_createClient, of SocketOpen] by simp

text \<open>What a frame does to the promises and to \<open>pendingCommands\<close> depends on these two
  only, and a frame leaves \<open>readyState\<close> as it is.\<close>

lemma step_message_fields:
  "readyState (step (SocketMessage data) s) = readyState s"
  "promises (step (SocketMessage data) s) =
     (if data \<noteq> JNull \<and> truthy (property data ''id'') \<and> has (pendingCommands s) (property data ''id'')
      then (case get (pendingCommands s) (property data ''id'') of
              Some (k, h) \<Rightarrow>
                (promises s)[h := (if truthy (property data ''error'') then reject (property data ''error'')
                                   else resolve (property data ''result'')) (promises s ! h)]
            | None \<Rightarrow> promises s)
      else promises s)"
  "pendingCommands (step (SocketMessage data) s) =
     (if data \<noteq> JNull \<and> truthy (property data ''id'') \<and> has (pendingCommands s) (property data ''id'')
      then (case get (pendingCommands s) (property data ''id'') of
              Some (k, h) \<Rightarrow> (pendingCommands s)(k := None)
            | None \<Rightarrow> pendingCommands s)
      else pendingCommands s)"
  by (simp_all add: onmessage_def Let_def settle_fields split: option.splits prod.splits)

lemma step_message_proj:
  assumes "promises s = promises t" and "pendingCommands s = pendingCommands t"
  shows "promises (step (SocketMessage data) s) = promises (step (SocketMessage data) t)
     \<and> pendingCommands (step (SocketMessage data) s) = pendingCommands (step (SocketMessage data) t)
     \<and> readyState (step (SocketMessage data) s) = readyState s"
  unfolding step_message_fields assms by simp

lemma step_not_open:
  assumes "readyState s \<noteq> OPEN" and "a \<noteq> SocketOpen" and "\<not> (\<exists>data. a = SocketMessage data)"
  shows "promises (step a s) = promises s \<and> pendingCommands (step a s) = pendingCommands s
     \<and> readyState (step a s) \<noteq> OPEN"
  using assms
  by (cases a) (auto simp: socket_close_def onclose_def sendCommand_def on_others close_def)

text \<open>On a socket that is not open and does not open again, only the frames count.\<close>

lemma run_not_open:
  "promises s = promises t \<Longrightarrow> pendingCommands s = pendingCommands t \<Longrightarrow>
   readyState s \<noteq> OPEN \<Longrightarrow> SocketOpen \<notin> set acts \<Longrightarrow>
     promises (run acts s) = promises (run (map SocketMessage (frames_of acts)) t)
     \<and> pendingCommands (run acts s) = pendingCommands (run (map SocketMessage (frames_of acts)) t)"
proof (induction acts arbitrary: s t)
  case Nil
  then show ?case by (simp add: run_Nil)
next
  case (Cons a acts)
  have no: "SocketOpen \<notin> set acts" and a: "a \<noteq> SocketOpen" using Cons.prems(4) by auto
  show ?case
  proof (cases "\<exists>data. a = SocketMessage data")
    case True
    then obtain data where d: "a = SocketMessage data" by blast
    have st: "promises (step a s) = promises (step a t)"
      "pendingCommands (step a s) = pendingCommands (step a t)"
      "readyState (step a s) \<noteq> OPEN"
      unfolding d using step_message_proj [OF Cons.prems(1,2), of data] Cons.prems(3) by simp_all
    show ?thesis
      using Cons.IH [OF st no] by (simp add: run_Cons d del: step.simps)
  next
    case False
    have fr: "frames_of (a # acts) = frames_of acts"
      using a False by (cases a) auto
    have st: "promises (step a s) = promises t" "pendingCommands (step a s) = pendingCommands t"
      "readyState (step a s) \<noteq> OPEN"
      using step_not_open [OF Cons.prems(3) a False] Cons.prems(1,2) by simp_all
    show ?thesis
      unfolding fr using Cons.IH [OF st no] by (simp add: run_Cons del: step.simps)
  qed
qed

subsection \<open>The routing of an incoming frame\<close>

text \<open>
  C1, as stated, fails in its part (b) for the empty method name: with a listener
  registered for \<open>""\<close>, the frame \<open>{"method": "", "params": {}}\<close> carries a method
  field and matches no pending command, and the listener is not called, because
  \<open>if (data.method)\<close> tests the truth value of the string.
\<close>

theorem empty_method_counterexample:
  "property (JObj [(''method'', JStr []), (''params'', JObj [])]) ''method'' = Some (JStr [])
   \<and> eventListeners (on [] 7 (socket_open createClient)) [] = Some [7]
   \<and> onmessage (JObj [(''method'', JStr []), (''params'', JObj [])]) (on [] 7 (socket_open createClient))
       = Inr (on [] 7 (socket_open createClient))
   \<and> calls (on [] 7 (socket_open createClient)) = []"
  by (simp add: onmessage_def on_def socket_open_def onopen_def createClient_def set_add_def
      get_def has_def)

text \<open>
  C1, amended. For every frame that parses to a value other than \<open>null\<close>:
  (a) when its id is that of a pending command, that command is settled, its entry
  is removed, and no listener is called, whatever else the frame carries;
  (b) otherwise, when its method is a non-empty string, every listener registered
  for that method is called with the frame's \<open>params\<close>, in the order of the Set;
  (c) otherwise, and also when the method has no listener, the frame is dropped:
  the handler returns without an exception and the state is as before.
\<close>

theorem frame_routing:
  assumes "wf s" and "data \<noteq> JNull"
  shows "(\<forall>k h. get (pendingCommands s) (property data ''id'') = Some (k, h) \<longrightarrow>
            (\<exists>s'. onmessage data s = Inr s' \<and> calls s' = calls s
                \<and> eventListeners s' = eventListeners s
                \<and> pendingCommands s' = (pendingCommands s)(k := None)
                \<and> promises s' ! h \<noteq> Pending))
       \<and> (get (pendingCommands s) (property data ''id'') = None \<longrightarrow>
            (\<forall>m. property data ''method'' = Some (JStr m) \<and> m \<noteq> [] \<longrightarrow>
               onmessage data s =
                 Inr (s\<lparr> calls := calls s @ map (\<lambda>callback. (callback, property data ''params''))
                                                (listeners s m) \<rparr>))
          \<and> ((\<forall>m. property data ''method'' = Some (JStr m) \<and> m \<noteq> [] \<longrightarrow> listeners s m = []) \<longrightarrow>
               onmessage data s = Inr s))"
proof (intro conjI allI impI)
  fix k h
  assume g: "get (pendingCommands s) (property data ''id'') = Some (k, h)"
  have "pendingCommands s k = Some h" using get_SomeD [OF g] by simp
  then have "h < length (promises s)" using wf_pending [OF assms(1)] by blast
  then show "\<exists>s'. onmessage data s = Inr s' \<and> calls s' = calls s
                \<and> eventListeners s' = eventListeners s
                \<and> pendingCommands s' = (pendingCommands s)(k := None)
                \<and> promises s' ! h \<noteq> Pending"
    by (simp add: onmessage_response_wf [OF assms(1) g])
next
  fix m
  assume "get (pendingCommands s) (property data ''id'') = None"
    and "property data ''method'' = Some (JStr m) \<and> m \<noteq> []"
  then show "onmessage data s =
      Inr (s\<lparr> calls := calls s @ map (\<lambda>callback. (callback, property data ''params'')) (listeners s m) \<rparr>)"
    using onmessage_event_listeners [OF assms(2)] by blast
next
  assume "get (pendingCommands s) (property data ''id'') = None"
    and "\<forall>m. property data ''method'' = Some (JStr m) \<and> m \<noteq> [] \<longrightarrow> listeners s m = []"
  then show "onmessage data s = Inr s"
    using onmessage_dropped [OF assms(2)] by blast
qed

theorem frame_routing_witness:
  "wf (snd (sendCommand ''Browser.getVersion'' None None (on ''Log.entryAdded'' 3 (socket_open createClient))))
   \<and> JObj [(''id'', JNum 1), (''method'', JStr ''Log.entryAdded''), (''result'', JObj [])] \<noteq> JNull
   \<and> get (pendingCommands (snd (sendCommand ''Browser.getVersion'' None None
              (on ''Log.entryAdded'' 3 (socket_open createClient)))))
          (property (JObj [(''id'', JNum 1), (''method'', JStr ''Log.entryAdded''), (''result'', JObj [])]) ''id'')
       = Some (1, 0)
   \<and> (\<exists>s'. onmessage (JObj [(''id'', JNum 1), (''method'', JStr ''Log.entryAdded''), (''result'', JObj [])])
               (snd (sendCommand ''Browser.getVersion'' None None
                  (on ''Log.entryAdded'' 3 (socket_open createClient)))) = Inr s'
          \<and> calls s' = [] \<and> promises s' ! 0 \<noteq> Pending)
   \<and> get (pendingCommands (snd (sendCommand ''Browser.getVersion'' None None
              (on ''Log.entryAdded'' 3 (socket_open createClient)))))
          (property (JObj [(''id'', JNum 99999), (''method'', JStr ''Log.entryAdded''),
                           (''params'', JObj [(''level'', JStr ''info'')])]) ''id'')
       = None
   \<and> onmessage (JObj [(''id'', JNum 99999), (''method'', JStr ''Log.entryAdded''),
                      (''params'', JObj [(''level'', JStr ''info'')])])
         (snd (sendCommand ''Browser.getVersion'' None None (on ''Log.entryAdded'' 3 (socket_open createClient))))
       = Inr ((snd (sendCommand ''Browser.getVersion'' None None
                 (on ''Log.entryAdded'' 3 (socket_open createClient))))
              \<lparr> calls := [(3, Some (JObj [(''level'', JStr ''info'')]))] \<rparr>)
   \<and> onmessage (JObj [(''result'', JObj [])])
         (snd (sendCommand ''Browser.getVersion'' None None (on ''Log.entryAdded'' 3 (socket_open createClient))))
       = Inr (snd (sendCommand ''Browser.getVersion'' None None
                 (on ''Log.entryAdded'' 3 (socket_open createClient))))"
proof -
  let ?s = "snd (sendCommand ''Browser.getVersion'' None None (on ''Log.entryAdded'' 3 (socket_open createClient)))"
  let ?d = "JObj [(''id'', JNum 1), (''method'', JStr ''Log.entryAdded''), (''result'', JObj [])]"
  let ?e = "JObj [(''id'', JNum 99999), (''method'', JStr ''Log.entryAdded''),
                  (''params'', JObj [(''level'', JStr ''info'')])]"
  let ?f = "JObj [(''result'', JObj [])]"
  have w: "wf ?s" by (intro wf_sendCommand wf_on wf_opened)
  have o: "readyState (on ''Log.entryAdded'' 3 (socket_open createClient)) = OPEN"
    by (simp add: on_others socket_open_def onopen_def)
  have p: "pendingCommands ?s = [1 \<mapsto> 0]" and c: "calls ?s = []"
    and l: "listeners ?s ''Log.entryAdded'' = [3]"
    by (simp_all add: sendCommand_def Let_def on_others on_eventListeners listeners_def
        socket_open_def onopen_def createClient_def incr_def set_add_def)
  have g: "get (pendingCommands ?s) (property ?d ''id'') = Some (1, 0)"
    unfolding p by (simp add: get_def)
  have ge: "get (pendingCommands ?s) (property ?e ''id'') = None"
    unfolding p by (simp add: get_def)
  have gf: "get (pendingCommands ?s) (property ?f ''id'') = None"
    unfolding p by (simp add: get_def)
  have a: "\<exists>s'. onmessage ?d ?s = Inr s' \<and> calls s' = [] \<and> promises s' ! 0 \<noteq> Pending"
    using frame_routing [of ?s ?d, OF w] g c by auto
  have b: "onmessage ?e ?s =
      Inr (?s\<lparr> calls := [(3, Some (JObj [(''level'', JStr ''info'')]))] \<rparr>)"
    using frame_routing [of ?s ?e, OF w] ge c l by simp
  have d: "onmessage ?f ?s = Inr ?s"
    using frame_routing [of ?s ?f, OF w] gf by simp
  show ?thesis
    using w g a ge b d by simp
qed

subsection \<open>Commands in flight and the order of their responses\<close>

text \<open>
  C2, as stated, fails once the counter has reached \<open>2^53\<close> (see C8): of
  \<open>2^53 + 1\<close> commands issued on an open connection, the last two are sent with the
  same id \<open>2^53\<close>, and the later call overwrites the entry of the earlier one in
  \<open>pendingCommands\<close>. The response frame with the id \<open>2^53\<close> settles the later
  command; the earlier one, whose handle is \<open>2^53 - 1\<close>, stays pending, and no entry
  is left that could settle it.
\<close>

theorem shared_id_counterexample:
  "fst (sendCommands (replicate (2 ^ 53 + 1) (''Page.enable'', None, None)) (socket_open createClient))
       ! (2 ^ 53 - 1) = Inr (2 ^ 53 - 1)
   \<and> frame_id (sent (snd (sendCommands (replicate (2 ^ 53 + 1) (''Page.enable'', None, None))
          (socket_open createClient))) ! (2 ^ 53 - 1)) = Some (2 ^ 53)
   \<and> frame_id (JObj [(''id'', JNum (2 ^ 53)), (''result'', JObj [])]) = Some (2 ^ 53)
   \<and> promises (run [SocketMessage (JObj [(''id'', JNum (2 ^ 53)), (''result'', JObj [])])]
          (snd (sendCommands (replicate (2 ^ 53 + 1) (''Page.enable'', None, None))
             (socket_open createClient)))) ! (2 ^ 53 - 1) = Pending
   \<and> pendingCommands (run [SocketMessage (JObj [(''id'', JNum (2 ^ 53)), (''result'', JObj [])])]
          (snd (sendCommands (replicate (2 ^ 53 + 1) (''Page.enable'', None, None))
             (socket_open createClient)))) (2 ^ 53) = None"
proof -
  define n :: nat where "n = 2 ^ 53 + 1"
  define cmds :: "(string \<times> (string \<times> json) list option \<times> string option) list"
    where "cmds = replicate n (''Page.enable'', None, None)"
  define S where "S = snd (sendCommands cmds (socket_open createClient))"
  define F where "F = JObj [(''id'', JNum (2 ^ 53)), (''result'', JObj [])]"
  have o: "readyState (socket_open createClient) = OPEN" by (simp add: socket_open_def onopen_def)
  have p0: "promises (socket_open createClient) = []" "sent (socket_open createClient) = []"
    by (simp_all add: socket_open_def onopen_def createClient_def)
  have len: "length cmds = n" by (simp add: cmds_def)
  have ne: "cmds \<noteq> []" using len by (auto simp: n_def)
  have lt: "2 ^ 53 - 1 < n" by (simp add: n_def)
  have a: "fst (sendCommands cmds (socket_open createClient)) ! (2 ^ 53 - 1) = Inr (2 ^ 53 - 1)"
    using sendCommands_open [OF o, of "2 ^ 53 - 1" cmds] lt len p0 by simp
  have pr: "promises S = replicate n Pending"
    and ls: "length (sent S) = n"
    unfolding S_def using sendCommands_open [OF o, of 0 cmds] len p0 by simp_all
  have i: "ids_inv S"
    unfolding S_def sendCommands_run by (rule ids_inv_run) (rule ids_inv_opened)
  have mi: "messageId S = 2 ^ 53"
    using i ls by (simp add: ids_inv_def n_def)
  have b: "frame_id (sent S ! (2 ^ 53 - 1)) = Some (2 ^ 53)"
    using frame_id_nth [OF i, of "2 ^ 53 - 1"] ls lt by simp
  have pk: "pendingCommands S (2 ^ 53) = Some (2 ^ 53)"
    using sendCommands_last [OF o ne] len p0 unfolding S_def [symmetric] mi by (simp add: n_def)
  have w: "wf S" unfolding S_def by (rule wf_sendCommands) (rule wf_opened)
  have "F = JObj [(''id'', JNum (of_nat (2 ^ 53))), (''result'', JObj [])]"
    by (simp add: F_def)
  then have c: "frame_id F = Some (2 ^ 53)"
    by (simp add: frame_id_def key_of_nat del: key_of.simps of_nat_power of_nat_numeral)
  have st: "run [SocketMessage F] S =
      S\<lparr> pendingCommands := (pendingCommands S)(2 ^ 53 := None),
         promises := (promises S)[2 ^ 53 := outcome F] \<rparr>"
    using step_response [OF w c pk] by (simp add: run_Cons run_Nil del: step.simps)
  have d: "promises (run [SocketMessage F] S) ! (2 ^ 53 - 1) = Pending"
    unfolding st using lt by (simp add: pr)
  have e: "pendingCommands (run [SocketMessage F] S) (2 ^ 53) = None"
    unfolding st by simp
  show ?thesis
    using a b c d e unfolding S_def cmds_def n_def F_def by blast
qed

text \<open>
  C2, amended. Let \<open>N\<close> commands be issued on an open connection whose counter
  stays at or below \<open>2^53\<close>, and let any frames (none of them \<open>null\<close>) arrive
  afterwards, in any order. The \<open>n\<close>-th command returns a promise of its own
  and is sent with the id \<open>messageId + n + 1\<close>. Its promise is settled by the first
  frame that carries this id, as that frame says (rejected with \<open>error\<close>, or fulfilled
  with \<open>result\<close>), whatever frames come before or after it, and it is pending as
  long as no frame carries the id. The entry of the id is removed by that first
  frame, so a later frame with the same id is not a response to the command.
\<close>

theorem out_of_order_resolution:
  assumes "wf s" and "readyState s = OPEN" and "messageId s + length cmds \<le> 2 ^ 53"
    and "JNull \<notin> set frames" and "n < length cmds"
  shows "fst (sendCommands cmds s) ! n = Inr (length (promises s) + n)
     \<and> frame_id (sent (snd (sendCommands cmds s)) ! (length (sent s) + n)) = Some (messageId s + n + 1)
     \<and> promises (run (map SocketMessage frames) (snd (sendCommands cmds s))) ! (length (promises s) + n)
         = (case find (\<lambda>f. frame_id f = Some (messageId s + n + 1)) frames of
              None \<Rightarrow> Pending | Some f \<Rightarrow> outcome f)
     \<and> pendingCommands (run (map SocketMessage frames) (snd (sendCommands cmds s))) (messageId s + n + 1)
         = (if \<exists>f\<in>set frames. frame_id f = Some (messageId s + n + 1) then None
            else Some (length (promises s) + n))"
proof -
  have w1: "wf (snd (sendCommands cmds s))" using assms(1) by (rule wf_sendCommands)
  have a: "fst (sendCommands cmds s) ! n = Inr (length (promises s) + n)"
    using sendCommands_open [OF assms(2), of n cmds] assms(5) by simp
  have b: "pendingCommands (snd (sendCommands cmds s)) (messageId s + n + 1) = Some (length (promises s) + n)"
    and c: "frame_id (sent (snd (sendCommands cmds s)) ! (length (sent s) + n)) = Some (messageId s + n + 1)"
    using sendCommands_allocates [OF assms(2,3,5)] by simp_all
  show ?thesis
    using a c receive_settles [OF w1 b, of frames] by simp
qed

theorem out_of_order_resolution_witness:
  "wf (socket_open createClient) \<and> readyState (socket_open createClient) = OPEN
   \<and> JNull \<notin> set [JObj [(''id'', JNum 2), (''result'', JObj [(''name'', JStr ''frameTree'')])],
                     JObj [(''id'', JNum 1), (''result'', JObj [(''name'', JStr ''resourceTree'')])],
                     JObj [(''id'', JNum 1), (''error'', JObj [(''code'', JNum 7)])]]
   \<and> fst (sendCommands [(''Page.getResourceTree'', None, None), (''Page.getFrameTree'', None, None)]
          (socket_open createClient)) ! 0 = Inr 0
   \<and> promises (run (map SocketMessage
          [JObj [(''id'', JNum 2), (''result'', JObj [(''name'', JStr ''frameTree'')])],
           JObj [(''id'', JNum 1), (''result'', JObj [(''name'', JStr ''resourceTree'')])],
           JObj [(''id'', JNum 1), (''error'', JObj [(''code'', JNum 7)])]])
        (snd (sendCommands [(''Page.getResourceTree'', None, None), (''Page.getFrameTree'', None, None)]
          (socket_open createClient)))) ! 0
       = Fulfilled (Some (JObj [(''name'', JStr ''resourceTree'')]))"
proof -
  let ?s = "socket_open createClient"
  let ?cmds = "[(''Page.getResourceTree'', None, None), (''Page.getFrameTree'', None, None)]
      :: (string \<times> (string \<times> json) list option \<times> string option) list"
  let ?frames = "[JObj [(''id'', JNum 2), (''result'', JObj [(''name'', JStr ''frameTree'')])],
                     JObj [(''id'', JNum 1), (''result'', JObj [(''name'', JStr ''resourceTree'')])],
                     JObj [(''id'', JNum 1), (''error'', JObj [(''code'', JNum 7)])]]"
  have o: "readyState ?s = OPEN" by (simp add: socket_open_def onopen_def)
  have f: "messageId ?s = 0" "promises ?s = []" "sent ?s = []"
    by (simp_all add: socket_open_def onopen_def createClient_def)
  have b: "messageId ?s + length ?cmds \<le> 2 ^ 53" using f by simp
  have j: "JNull \<notin> set ?frames" by simp
  have n: "0 < length ?cmds" by simp
  have fi: "find (\<lambda>f. frame_id f = Some (Suc 0)) ?frames
      = Some (JObj [(''id'', JNum 1), (''result'', JObj [(''name'', JStr ''resourceTree'')])])"
    by (simp add: frame_id_def)
  show ?thesis
    using out_of_order_resolution [OF wf_opened o b j n] wf_opened o j f fi
    by (simp add: outcome_def)
qed

subsection \<open>Commands on a socket that is not open\<close>

text \<open>
  C3. Whenever the socket is not open (connecting, closing or closed), \<open>sendCommand\<close>
  returns a promise rejected with \<open>Error("WebSocket is not open")\<close> and leaves the
  client as it was: no frame is sent, the id counter and the table of pending
  commands are unchanged.
\<close>

theorem sendCommand_not_open:
  assumes "readyState s \<noteq> OPEN"
  shows "sendCommand method params sessionId s = (Inl (Error ''WebSocket is not open''), s)
       \<and> sent (snd (sendCommand method params sessionId s)) = sent s
       \<and> messageId (snd (sendCommand method params sessionId s)) = messageId s
       \<and> pendingCommands (snd (sendCommand method params sessionId s)) = pendingCommands s"
  using assms by (simp add: sendCommand_def)

theorem sendCommand_not_open_witness:
  "readyState (close (createClient\<lparr> readyState := OPEN \<rparr>)) \<noteq> OPEN
   \<and> sendCommand ''Page.navigate'' (Some [(''url'', JStr ''about:blank'')]) None
        (close (createClient\<lparr> readyState := OPEN \<rparr>))
      = (Inl (Error ''WebSocket is not open''), close (createClient\<lparr> readyState := OPEN \<rparr>))"
proof -
  have h: "readyState (close (createClient\<lparr> readyState := OPEN \<rparr>)) \<noteq> OPEN"
    by (simp add: close_def createClient_def)
  show ?thesis using h sendCommand_not_open [OF h] by simp
qed

subsection \<open>The promise of \<open>createClient\<close>\<close>

text \<open>
  C4. \<open>createClient\<close> awaits \<open>connectionPromise\<close> and then returns the client, so
  its own promise settles as \<open>connectionPromise\<close> does. After any sequence of socket
  events and calls it is what the specification says: fulfilled if and only if the
  first \<open>open\<close> or \<open>close\<close> signal was \<open>open\<close> (so never before the socket signalled
  \<open>open\<close>), rejected with the close event if the first was \<open>close\<close>, and once
  rejected it stays rejected whatever follows.
\<close>

theorem createClient_settles:
  "connectionPromise (run acts createClient) = spec_createClient acts
   \<and> (connectionPromise (run acts createClient) = Fulfilled () \<longrightarrow> SocketOpen \<in> set acts)
   \<and> (\<forall>e. connectionPromise (run acts createClient) = Rejected e \<longrightarrow>
         SocketClose e \<in> set acts
         \<and> (\<forall>later. connectionPromise (run (acts @ later) createClient) = Rejected e))"
proof -
  have 1: "connectionPromise (run acts createClient) = spec_createClient acts"
    by (simp add: connectionPromise_run createClient_def)
  have 2: "spec_createClient acts = Fulfilled () \<Longrightarrow> SocketOpen \<in> set acts"
    by (induction acts rule: spec_createClient.induct) simp_all
  have 3: "spec_createClient acts = Rejected e \<Longrightarrow> SocketClose e \<in> set acts" for e
    by (induction acts rule: spec_createClient.induct) simp_all
  have 4: "connectionPromise (run (acts @ later) createClient) = Rejected e"
    if "connectionPromise (run acts createClient) = Rejected e" for e later
    using that by (simp add: run_append connectionPromise_run [of later])
  show ?thesis using 1 2 3 4 by auto
qed


theorem createClient_settles_witness:
  "connectionPromise (run [SocketClose (CloseEvent 1006 [])] createClient) = Rejected (CloseEvent 1006 [])
   \<and> SocketClose (CloseEvent 1006 []) \<in> set [SocketClose (CloseEvent 1006 [])]
   \<and> connectionPromise (run ([SocketClose (CloseEvent 1006 [])] @ [SocketOpen]) createClient)
       = Rejected (CloseEvent 1006 [])
   \<and> connectionPromise (run [SocketOpen] createClient) = Fulfilled ()
   \<and> SocketOpen \<in> set [SocketOpen]"
  using createClient_settles [of "[SocketClose (CloseEvent 1006 [])]"]
    createClient_settles [of "[SocketOpen]"]
  by simp

subsection \<open>Error before result\<close>

text \<open>
  C5. A frame whose id is that of a pending command settles that command: when the
  frame has an \<open>error\<close> payload (an object, as on the wire, or any other value that
  counts as true) the promise is rejected with it, whatever \<open>result\<close> is; when the
  frame has no \<open>error\<close> field (or one that counts as false: \<open>null\<close>, \<open>false\<close>, 0,
  the empty string) the promise is fulfilled with \<open>result\<close>.
\<close>

theorem response_error_precedence:
  assumes "wf s" and "get (pendingCommands s) (property data ''id'') = Some (k, h)"
  shows "\<exists>s'. onmessage data s = Inr s'
     \<and> (truthy (property data ''error'') \<longrightarrow> promises s' ! h = Rejected (property data ''error''))
     \<and> (\<forall>fields. property data ''error'' = Some (JObj fields) \<longrightarrow>
           promises s' ! h = Rejected (Some (JObj fields)))
     \<and> (property data ''error'' = None \<longrightarrow> promises s' ! h = Fulfilled (property data ''result''))
     \<and> (\<not> truthy (property data ''error'') \<longrightarrow> promises s' ! h = Fulfilled (property data ''result''))"
proof -
  have "pendingCommands s k = Some h"
    using get_SomeD [OF assms(2)] by simp
  then have "h < length (promises s)"
    using wf_pending [OF assms(1)] by blast
  then show ?thesis
    by (auto simp: onmessage_response_wf [OF assms])
qed

theorem response_error_precedence_witness:
  "wf (snd (sendCommand ''Runtime.evaluate'' (Some [(''expression'', JStr ''bad()'')]) None
         (socket_open createClient)))
   \<and> get (pendingCommands (snd (sendCommand ''Runtime.evaluate'' (Some [(''expression'', JStr ''bad()'')]) None
              (socket_open createClient))))
          (property (JObj [(''id'', JNum 1), (''result'', JObj []),
             (''error'', JObj [(''code'', JNum (- 32000)), (''message'', JStr ''Evaluation failed'')])]) ''id'')
       = Some (1, 0)
   \<and> (\<exists>s'. onmessage (JObj [(''id'', JNum 1), (''result'', JObj []),
               (''error'', JObj [(''code'', JNum (- 32000)), (''message'', JStr ''Evaluation failed'')])])
             (snd (sendCommand ''Runtime.evaluate'' (Some [(''expression'', JStr ''bad()'')]) None
                (socket_open createClient))) = Inr s'
          \<and> promises s' ! 0 =
              Rejected (Some (JObj [(''code'', JNum (- 32000)), (''message'', JStr ''Evaluation failed'')])))"
proof -
  let ?s = "snd (sendCommand ''Runtime.evaluate'' (Some [(''expression'', JStr ''bad()'')]) None
         (socket_open createClient))"
  let ?d = "JObj [(''id'', JNum 1), (''result'', JObj []),
             (''error'', JObj [(''code'', JNum (- 32000)), (''message'', JStr ''Evaluation failed'')])]"
  have w: "wf ?s" by (intro wf_sendCommand wf_opened)
  have g: "get (pendingCommands ?s) (property ?d ''id'') = Some (1, 0)"
    by (simp add: sendCommand_def Let_def socket_open_def onopen_def createClient_def get_def incr_def)
  show ?thesis
    using response_error_precedence [OF w g] w g by auto
qed

subsection \<open>The \<open>sessionId\<close> field of a command frame\<close>

text \<open>
  C6, as stated, fails for the empty string: \<open>sendCommand("Page.enable", {}, "")\<close>
  is given a \<open>sessionId\<close> argument, and the frame it sends has no \<open>sessionId\<close> field,
  because \<open>sessionId ? \<dots> : \<dots>\<close> tests the truth value of the string.
\<close>

theorem sessionId_empty_counterexample:
  "\<not> (property (last (sent (snd (sendCommand ''Page.enable'' (Some []) (Some [])
            (createClient\<lparr> readyState := OPEN \<rparr>))))) ''sessionId'' \<noteq> None
      \<longleftrightarrow> (Some [] :: string option) \<noteq> None)"
  by (simp add: sendCommand_def Let_def createClient_def message_def)

text \<open>
  C6, amended. On an open socket \<open>sendCommand\<close> sends one frame; the frame has the
  \<open>sessionId\<close> field if and only if the caller gave a non-empty \<open>sessionId\<close>, and then
  the field is that string; without a \<open>sessionId\<close> argument the frame is exactly
  \<open>{id, method, params}\<close>. The field is never \<open>null\<close> and never the empty string.
\<close>

theorem sendCommand_sessionId:
  assumes "readyState s = OPEN"
  shows "\<exists>frame. sent (snd (sendCommand method params sessionId s)) = sent s @ [frame]
     \<and> (property frame ''sessionId'' \<noteq> None \<longleftrightarrow> (\<exists>sid. sessionId = Some sid \<and> sid \<noteq> []))
     \<and> (\<forall>sid. sessionId = Some sid \<and> sid \<noteq> [] \<longrightarrow> property frame ''sessionId'' = Some (JStr sid))
     \<and> (sessionId = None \<longrightarrow>
          frame = JObj [(''id'', JNum (of_nat (incr (messageId s)))), (''method'', JStr method),
                        (''params'', JObj (case params of None \<Rightarrow> [] | Some p \<Rightarrow> p))])
     \<and> property frame ''sessionId'' \<noteq> Some JNull
     \<and> property frame ''sessionId'' \<noteq> Some (JStr [])"
  using assms
  by (cases sessionId) (simp_all add: sendCommand_sent property_message message_no_sessionId)

theorem sendCommand_sessionId_witness:
  "readyState (createClient\<lparr> readyState := OPEN \<rparr>) = OPEN
   \<and> (\<exists>frame. sent (snd (sendCommand ''Target.attachToTarget'' (Some [(''targetId'', JStr ''t1'')])
                         (Some ''session-123'') (createClient\<lparr> readyState := OPEN \<rparr>)))
                = sent (createClient\<lparr> readyState := OPEN \<rparr>) @ [frame]
        \<and> property frame ''sessionId'' = Some (JStr ''session-123''))"
proof -
  have h: "readyState (createClient\<lparr> readyState := OPEN \<rparr>) = OPEN" by simp
  show ?thesis
    using h sendCommand_sessionId [OF h, of "''Target.attachToTarget''" "Some [(''targetId'', JStr ''t1'')]"
        "Some ''session-123''"]
    by auto
qed

subsection \<open>Listener sets\<close>

text \<open>
  C7, as stated, fails for an event frame whose method is the empty string: two
  listeners are registered for \<open>""\<close> (one of them twice), the frame
  \<open>{"method": "", "params": {"requestId": "1"}}\<close> arrives, and none is called.
\<close>

theorem duplicate_empty_method_counterexample:
  "eventListeners (on [] 2 (on [] 1 (on [] 1 (socket_open createClient)))) [] = Some [1, 2]
   \<and> property (JObj [(''method'', JStr []), (''params'', JObj [(''requestId'', JStr ''1'')])]) ''method''
       = Some (JStr [])
   \<and> onmessage (JObj [(''method'', JStr []), (''params'', JObj [(''requestId'', JStr ''1'')])])
        (on [] 2 (on [] 1 (on [] 1 (socket_open createClient))))
       = Inr (on [] 2 (on [] 1 (on [] 1 (socket_open createClient))))
   \<and> calls (on [] 2 (on [] 1 (on [] 1 (socket_open createClient)))) = []"
  by (simp add: onmessage_def on_def socket_open_def onopen_def createClient_def set_add_def
      get_def has_def)

text \<open>
  C7, amended. Registering a callback that is already registered for the method
  leaves the client as it is. After any history \<open>acts\<close> of the client, a frame that
  matches no pending command and whose method is a non-empty string calls the
  distinct callbacks registered for that method, each once, in the order of their
  first registration, each with the frame's \<open>params\<close>.
\<close>

theorem listeners_set_semantics:
  assumes "data \<noteq> JNull"
    and "get (pendingCommands (run acts createClient)) (property data ''id'') = None"
    and "property data ''method'' = Some (JStr m)" and "m \<noteq> []"
  shows "on event callback (on event callback s) = on event callback s
     \<and> (callback \<in> set (listeners s event) \<longrightarrow> on event callback s = s)
     \<and> onmessage data (run acts createClient) =
         Inr ((run acts createClient)\<lparr> calls := calls (run acts createClient)
                @ map (\<lambda>callback. (callback, property data ''params'')) (registration_order acts m) \<rparr>)
     \<and> distinct (registration_order acts m)
     \<and> set (registration_order acts m) = {callback. On m callback \<in> set acts}"
proof -
  have "listeners (run acts createClient) m = registration_order acts m"
    by (simp add: listeners_run) (simp add: listeners_def createClient_def)
  then show ?thesis
    using onmessage_event_listeners [OF assms] on_idem on_registered
      distinct_registration_order set_registration_order
    by simp
qed

theorem listeners_set_semantics_witness:
  "JObj [(''method'', JStr ''Network.requestWillBeSent''), (''params'', JObj [(''requestId'', JStr ''1'')])] \<noteq> JNull
   \<and> ''Network.requestWillBeSent'' \<noteq> []
   \<and> onmessage (JObj [(''method'', JStr ''Network.requestWillBeSent''), (''params'', JObj [(''requestId'', JStr ''1'')])])
       (run [SocketOpen, On ''Network.requestWillBeSent'' 1, On ''Network.requestWillBeSent'' 2,
             On ''Network.requestWillBeSent'' 1] createClient)
     = Inr ((run [SocketOpen, On ''Network.requestWillBeSent'' 1, On ''Network.requestWillBeSent'' 2,
             On ''Network.requestWillBeSent'' 1] createClient)
            \<lparr> calls := [(1, Some (JObj [(''requestId'', JStr ''1'')])),
                        (2, Some (JObj [(''requestId'', JStr ''1'')]))] \<rparr>)"
proof -
  let ?acts = "[SocketOpen, On ''Network.requestWillBeSent'' 1, On ''Network.requestWillBeSent'' 2,
             On ''Network.requestWillBeSent'' 1]"
  let ?d = "JObj [(''method'', JStr ''Network.requestWillBeSent''), (''params'', JObj [(''requestId'', JStr ''1'')])]"
  have n: "?d \<noteq> JNull" by simp
  have g: "get (pendingCommands (run ?acts createClient)) (property ?d ''id'') = None"
    by (simp add: get_def)
  have m: "property ?d ''method'' = Some (JStr ''Network.requestWillBeSent'')" by simp
  have e: "''Network.requestWillBeSent'' \<noteq> []" by simp
  have c: "calls (run ?acts createClient) = []"
    by (simp add: run_def on_others socket_open_def onopen_def createClient_def)
  show ?thesis
    using listeners_set_semantics [OF n g m e] n e c by simp
qed

subsection \<open>Correlation ids\<close>

text \<open>
  C8, as stated, fails once the counter reaches \<open>2^53\<close>: \<open>messageId\<close> is a
  JavaScript number, \<open>++messageId\<close> leaves \<open>2^53\<close> as it is, and every later command
  is sent with the id \<open>2^53\<close> again. On a connection that has sent \<open>2^53 + 1\<close>
  commands the last two frames carry the same id.
\<close>

theorem id_reused_counterexample:
  "length (sent (run (SocketOpen # replicate (2 ^ 53 + 1) (SendCommand ''Page.enable'' None None)) createClient))
     = 2 ^ 53 + 1
   \<and> frame_id (sent (run (SocketOpen # replicate (2 ^ 53 + 1) (SendCommand ''Page.enable'' None None))
                  createClient) ! (2 ^ 53 - 1)) = Some (2 ^ 53)
   \<and> frame_id (sent (run (SocketOpen # replicate (2 ^ 53 + 1) (SendCommand ''Page.enable'' None None))
                  createClient) ! (2 ^ 53)) = Some (2 ^ 53)"
proof -
  define n :: nat where "n = 2 ^ 53 + 1"
  define S where "S = run (SocketOpen # replicate n (SendCommand ''Page.enable'' None None)) createClient"
  have o: "readyState (socket_open createClient) = OPEN"
    by (simp add: socket_open_def onopen_def)
  have l: "length (sent S) = n"
    unfolding S_def run_Cons step.simps using run_sends [OF o, of n]
    by (simp add: socket_open_def onopen_def createClient_def)
  have i: "ids_inv S"
    unfolding S_def by (rule ids_inv_run) (rule ids_inv_createClient)
  have a: "frame_id (sent S ! (2 ^ 53 - 1)) = Some (2 ^ 53)"
    using frame_id_nth [OF i, of "2 ^ 53 - 1"] l by (simp add: n_def)
  have b: "frame_id (sent S ! (2 ^ 53)) = Some (2 ^ 53)"
    using frame_id_nth [OF i, of "2 ^ 53"] l by (simp add: n_def)
  show ?thesis
    using l a b unfolding S_def n_def by blast
qed

text \<open>
  C8, amended. On a connection that has sent at most \<open>2^53\<close> commands, whatever else
  has happened on it, the frames sent carry the ids \<open>1, 2, 3, \<dots>\<close> in the order of
  the calls: positive, starting at 1, each greater by one than the one before, none
  used twice; and the counter is the number of commands sent.
\<close>

theorem ids_from_one:
  assumes "length (sent (run acts createClient)) \<le> 2 ^ 53"
  shows "map frame_id (sent (run acts createClient))
           = map Some [1 ..< Suc (length (sent (run acts createClient)))]
     \<and> messageId (run acts createClient) = length (sent (run acts createClient))"
proof -
  have i: "ids_inv (run acts createClient)"
    by (rule ids_inv_run) (rule ids_inv_createClient)
  have "map (\<lambda>k. Some (min k (2 ^ 53))) [1 ..< Suc (length (sent (run acts createClient)))]
      = map Some [1 ..< Suc (length (sent (run acts createClient)))]"
    using assms by (intro map_cong) (auto simp: min_def)
  then show ?thesis
    using i assms by (simp add: ids_inv_def min_def)
qed

theorem ids_from_one_witness:
  "length (sent (run [SocketOpen, SendCommand ''Page.getResourceTree'' None None, On ''Page.loadEventFired'' 1,
                      SendCommand ''Page.getFrameTree'' None None] createClient)) \<le> 2 ^ 53
   \<and> map frame_id (sent (run [SocketOpen, SendCommand ''Page.getResourceTree'' None None,
                      On ''Page.loadEventFired'' 1, SendCommand ''Page.getFrameTree'' None None] createClient))
       = [Some 1, Some 2]"
proof -
  let ?acts = "[SocketOpen, SendCommand ''Page.getResourceTree'' None None, On ''Page.loadEventFired'' 1,
                      SendCommand ''Page.getFrameTree'' None None]"
  have l: "length (sent (run ?acts createClient)) = 2"
    by (simp add: run_def sendCommand_def Let_def on_others socket_open_def onopen_def createClient_def)
  then have h: "length (sent (run ?acts createClient)) \<le> 2 ^ 53" by simp
  have u: "map Some [1 ..< Suc 2] = [Some 1, Some (2::nat)]" by code_simp
  have "map frame_id (sent (run ?acts createClient)) = map Some [1 ..< Suc 2]"
    using ids_from_one [OF h] unfolding l by (rule conjunct1)
  then show ?thesis
    using h u by (simp only: simp_thms)
qed

subsection \<open>Closing with commands pending\<close>

text \<open>
  C9, as stated, fails for \<open>client.close()\<close>: it calls \<open>ws.close()\<close>, which leaves
  the socket closing, and \<open>ws.onmessage\<close> does not look at \<open>readyState\<close>. A response
  that is delivered after the call, before the socket has closed, resolves the
  command that was pending when \<open>close()\<close> was called.
\<close>

theorem late_response_counterexample:
  "pendingCommands (snd (sendCommand ''Page.navigate'' None None (socket_open createClient))) 1 = Some 0
   \<and> promises (snd (sendCommand ''Page.navigate'' None None (socket_open createClient))) ! 0 = Pending
   \<and> readyState (run [Close] (snd (sendCommand ''Page.navigate'' None None (socket_open createClient))))
       = CLOSING
   \<and> promises (run [Close, SocketMessage (JObj [(''id'', JNum 1), (''result'', JObj [(''late'', JBool True)])])]
        (snd (sendCommand ''Page.navigate'' None None (socket_open createClient)))) ! 0
       = Fulfilled (Some (JObj [(''late'', JBool True)]))"
  by (simp add: run_def sendCommand_def Let_def socket_open_def onopen_def createClient_def incr_def
      close_def onmessage_def get_def has_def settle_def)

text \<open>
  C9, amended. Neither \<open>client.close()\<close> nor the socket's \<open>close\<close> event resolves,
  rejects or removes a pending command: the promises and \<open>pendingCommands\<close> are as
  before. Whatever follows on the socket, which does not open again (calls of
  \<open>sendCommand\<close>, \<open>on\<close> and \<open>close\<close>, \<open>close\<close> events, frames still delivered), a
  command pending at the close is settled by nothing but the first frame that
  carries its id, as that frame says; if no such frame is delivered it stays pending
  and its entry stays in \<open>pendingCommands\<close>.
\<close>

theorem close_settles_nothing:
  assumes "wf s" and "pendingCommands s i = Some h"
    and "c = Close \<or> c = SocketClose e" and "SocketOpen \<notin> set acts"
  shows "promises (step c s) = promises s \<and> pendingCommands (step c s) = pendingCommands s
     \<and> promises (run (c # acts) s) ! h =
         (case find (\<lambda>f. frame_id f = Some i) (frames_of acts) of
            None \<Rightarrow> Pending | Some f \<Rightarrow> outcome f)
     \<and> pendingCommands (run (c # acts) s) i =
         (if \<exists>f\<in>set (frames_of acts). frame_id f = Some i then None else Some h)"
proof -
  have st: "promises (step c s) = promises s" "pendingCommands (step c s) = pendingCommands s"
    "readyState (step c s) \<noteq> OPEN"
    using assms(3) by (auto simp: close_def socket_close_def onclose_def split: if_splits)
  have "promises (run acts (step c s)) = promises (run (map SocketMessage (frames_of acts)) s)"
    "pendingCommands (run acts (step c s)) = pendingCommands (run (map SocketMessage (frames_of acts)) s)"
    using run_not_open [OF st assms(4)] by simp_all
  then show ?thesis
    using st(1,2) receive_settles [OF assms(1,2), of "frames_of acts"] by (simp add: run_Cons del: step.simps)
qed

theorem close_settles_nothing_witness:
  "wf (snd (sendCommand ''Page.navigate'' None None (socket_open createClient)))
   \<and> pendingCommands (snd (sendCommand ''Page.navigate'' None None (socket_open createClient))) 1 = Some 0
   \<and> SocketOpen \<notin> set [SendCommand ''Page.enable'' None None, SocketMessage (JObj [(''id'', JNum 7)]),
                          SocketClose (CloseEvent 1000 []), Close]
   \<and> promises (run [Close, SendCommand ''Page.enable'' None None, SocketMessage (JObj [(''id'', JNum 7)]),
                     SocketClose (CloseEvent 1000 []), Close]
        (snd (sendCommand ''Page.navigate'' None None (socket_open createClient)))) ! 0 = Pending
   \<and> pendingCommands (run [Close, SendCommand ''Page.enable'' None None, SocketMessage (JObj [(''id'', JNum 7)]),
                     SocketClose (CloseEvent 1000 []), Close]
        (snd (sendCommand ''Page.navigate'' None None (socket_open createClient)))) 1 = Some 0"
proof -
  let ?s = "snd (sendCommand ''Page.navigate'' None None (socket_open createClient))"
  let ?acts = "[SendCommand ''Page.enable'' None None, SocketMessage (JObj [(''id'', JNum 7)]),
                          SocketClose (CloseEvent 1000 []), Close]"
  have w: "wf ?s" by (intro wf_sendCommand wf_opened)
  have p: "pendingCommands ?s 1 = Some 0"
    by (simp add: sendCommand_def Let_def socket_open_def onopen_def createClient_def incr_def)
  have c: "Close = Close \<or> Close = SocketClose (CloseEvent 1000 [])" by simp
  have n: "SocketOpen \<notin> set ?acts" by simp
  have f: "find (\<lambda>f. frame_id f = Some 1) (frames_of ?acts) = None"
    "\<not> (\<exists>f\<in>set (frames_of ?acts). frame_id f = Some 1)"
    by (simp_all add: frame_id_def)
  show ?thesis
    using close_settles_nothing [OF w p c n] w p n f by simp
qed

subsection \<open>The default of \<open>params\<close>\<close>

text \<open>
  C10. A call of \<open>sendCommand\<close> without \<open>params\<close> is the call with the empty object:
  the two calls return the same promise and leave the same state, and on an open
  socket the frame sent has \<open>"params": {}\<close>.
\<close>

theorem sendCommand_params_default:
  "sendCommand method None sessionId s = sendCommand method (Some []) sessionId s
   \<and> (readyState s = OPEN \<longrightarrow>
        property (last (sent (snd (sendCommand method None sessionId s)))) ''params'' = Some (JObj []))"
  by (simp add: sendCommand_def Let_def property_message)

theorem sendCommand_params_default_witness:
  "readyState (createClient\<lparr> readyState := OPEN \<rparr>) = OPEN
   \<and> sendCommand ''Page.enable'' None None (createClient\<lparr> readyState := OPEN \<rparr>)
       = sendCommand ''Page.enable'' (Some []) None (createClient\<lparr> readyState := OPEN \<rparr>)
   \<and> property (last (sent (snd (sendCommand ''Page.enable'' None None (createClient\<lparr> readyState := OPEN \<rparr>)))))
         ''params'' = Some (JObj [])"
proof -
  have h: "readyState (createClient\<lparr> readyState := OPEN \<rparr>) = OPEN" by simp
  show ?thesis
    using h sendCommand_params_default [of "''Page.enable''" None "createClient\<lparr> readyState := OPEN \<rparr>"]
    by blast
qed

end
